theory Spec2Isabelle
  imports Complex_Main "HOL-Library.Sublist"
begin
section \<open>The word generator of wordgenerator.py\<close>

subsection \<open>Constants of the class\<close>

text \<open>
  \<^verbatim>\<open>WordGenerator.MARKER = "~"\<close>: the character put before and after every word.
\<close>

definition MARKER :: char where
  "MARKER = CHR ''~''"

text \<open>
  \<^verbatim>\<open>WordGenerator.ENGLISH_VOWELS = {"a", "e", "i", "o", "u"}\<close>, as the class body
  creates it.  The vowels are single-character strings, so the set is one of characters.
\<close>

definition english_vowels :: "char set" where
  "english_vowels = {CHR ''a'', CHR ''e'', CHR ''i'', CHR ''o'', CHR ''u''}"

subsection \<open>The segmentation regex\<close>

text \<open>
  \<^verbatim>\<open>seed\<close> compiles \<^verbatim>\<open>([%]+)([^%]+)(?=([%]+))\<close> with \<^verbatim>\<open>%\<close> replaced by the
  joined vowel characters.  The compiled expression is represented by the set of
  characters of its class (the vowels and the marker); this is what the class denotes
  as long as no vowel is one of the class metacharacters \<^verbatim>\<open>] \ ^ -\<close>, which holds
  for \<^verbatim>\<open>ENGLISH_VOWELS\<close> and the marker.

  \<open>plus_candidates P s\<close> lists the ways a greedy \<^verbatim>\<open>[...]+\<close> over the class \<open>P\<close> can
  match at the start of \<open>s\<close>, in the order in which the backtracking matcher tries
  them: the longest first, at least one character.
\<close>

definition plus_candidates :: "(char \<Rightarrow> bool) \<Rightarrow> string \<Rightarrow> string list" where
  "plus_candidates P s = filter (\<lambda>p. p \<noteq> [] \<and> list_all P p) (rev (prefixes s))"

text \<open>
  One match attempt of the whole expression at the start of \<open>s\<close>: group 1 is a vowel
  run, group 2 a run of other characters, and the lookahead captures group 3 without
  consuming it.  The first combination that succeeds is the match.
\<close>

definition regex_match :: "char set \<Rightarrow> string \<Rightarrow> (string \<times> string \<times> string) option" where
  "regex_match vs s =
     (case [(g1, g2, g3).
              g1 \<leftarrow> plus_candidates (\<lambda>c. c \<in> vs) s,
              g2 \<leftarrow> plus_candidates (\<lambda>c. c \<notin> vs) (drop (length g1) s),
              g3 \<leftarrow> plus_candidates (\<lambda>c. c \<in> vs) (drop (length g1 + length g2) s)]
      of [] \<Rightarrow> None
       | m # _ \<Rightarrow> Some m)"

text \<open>
  \<^verbatim>\<open>regex.findall(word)\<close>: scan from the left; where the expression matches, report the
  three groups and go on after the consumed text (groups 1 and 2), otherwise move one
  character on.
\<close>

lemma regex_match_consumes:
  assumes "regex_match vs s = Some (g1, g2, g3)"
  shows "g1 \<noteq> []"
proof -
  let ?all = "[(g1, g2, g3).
              g1 \<leftarrow> plus_candidates (\<lambda>c. c \<in> vs) s,
              g2 \<leftarrow> plus_candidates (\<lambda>c. c \<notin> vs) (drop (length g1) s),
              g3 \<leftarrow> plus_candidates (\<lambda>c. c \<in> vs) (drop (length g1 + length g2) s)]"
  from assms obtain rest where "?all = (g1, g2, g3) # rest"
    unfolding regex_match_def by (simp split: list.splits)
  then have "(g1, g2, g3) \<in> set ?all"
    by (simp only: list.set_intros)
  then have "g1 \<in> set (plus_candidates (\<lambda>c. c \<in> vs) s)"
    by auto
  then show ?thesis
    by (simp add: plus_candidates_def)
qed

function findall :: "char set \<Rightarrow> string \<Rightarrow> (string \<times> string \<times> string) list" where
  "findall vs s =
     (if s = [] then []
      else (case regex_match vs s of
              None \<Rightarrow> findall vs (tl s)
            | Some (g1, g2, g3) \<Rightarrow>
                (g1, g2, g3) # findall vs (drop (length g1 + length g2) s)))"
  by pat_completeness auto
termination
proof (relation "measure (\<lambda>(vs, s). length s)")
  fix vs :: "char set" and s :: string and m g1 r g2 g3
  assume "s \<noteq> []" and "regex_match vs s = Some m" and "(g1, r) = m" and "(g2, g3) = r"
  then have "g1 \<noteq> []"
    using regex_match_consumes [of vs s g1 g2 g3] by simp
  with \<open>s \<noteq> []\<close> show "((vs, drop (length g1 + length g2) s), (vs, s)) \<in> measure (\<lambda>(vs, s). length s)"
    by simp
qed auto

text \<open>
  \<^verbatim>\<open>split_word\<close>: the word between two markers, and for every match the pair
  \<^verbatim>\<open>(key, (not_vowels, more_vowels))\<close>.  The argument \<open>rx\<close> is \<^verbatim>\<open>self.regex\<close>.
\<close>

definition split_word :: "char set \<Rightarrow> string \<Rightarrow> (string \<times> (string \<times> string)) list" where
  "split_word rx word =
     map (\<lambda>(key, g2, g3). (key, (g2, g3))) (findall rx ((MARKER # word) @ [MARKER]))"

subsection \<open>Python values\<close>

text \<open>
  The attributes of a generator hold dynamically typed values: the tables are built as a
  \<^verbatim>\<open>defaultdict(Counter)\<close> and a \<^verbatim>\<open>Counter\<close>, frozen into plain dictionaries or lists,
  and replaced by whatever a JSON document contains on \<^verbatim>\<open>load\<close>.  Dictionaries keep
  their insertion order, which the weighted choice walks, so they are association
  lists.  Numbers are integers (no floats inside the tables), and strings are over the
  8-bit characters of \<^typ>\<open>char\<close>, read as the first 256 code points of Unicode.
\<close>

datatype pv =
    PNone
  | PBool bool
  | PInt int
  | PStr string
  | PList "pv list"
  | PTuple "pv list"
  | PDict "(pv \<times> pv) list"
  | PCounter "(pv \<times> pv) list"
  | PDefaultDict "(pv \<times> pv) list"

text \<open>The exceptions that the code raises or that reach its callers.\<close>

datatype py_error =
    EmptyDictionaryError
  | AttributeError
  | KeyError
  | TypeError
  | ValueError
  | IndexError
  | OSError
  | JSONDecodeError

text \<open>Truth value of an object, as \<^verbatim>\<open>if x\<close> and \<^verbatim>\<open>not x\<close> take it.\<close>

fun truthy :: "pv \<Rightarrow> bool" where
  "truthy PNone = False"
| "truthy (PBool b) = b"
| "truthy (PInt i) = (i \<noteq> 0)"
| "truthy (PStr s) = (s \<noteq> [])"
| "truthy (PList xs) = (xs \<noteq> [])"
| "truthy (PTuple xs) = (xs \<noteq> [])"
| "truthy (PDict d) = (d \<noteq> [])"
| "truthy (PCounter d) = (d \<noteq> [])"
| "truthy (PDefaultDict d) = (d \<noteq> [])"

text \<open>
  Dictionary keys are compared with \<^verbatim>\<open>==\<close>, for which \<^verbatim>\<open>True == 1\<close> and
  \<^verbatim>\<open>False == 0\<close>, also inside tuples.  Only hashable objects are keys: \<^verbatim>\<open>None\<close>,
  booleans, integers, strings and tuples of hashable objects.
\<close>

fun norm_key :: "pv \<Rightarrow> pv" where
  "norm_key (PBool b) = PInt (if b then 1 else 0)"
| "norm_key (PTuple xs) = PTuple (map norm_key xs)"
| "norm_key v = v"

definition py_eq :: "pv \<Rightarrow> pv \<Rightarrow> bool" where
  "py_eq a b = (norm_key a = norm_key b)"

fun hashable :: "pv \<Rightarrow> bool" where
  "hashable PNone = True"
| "hashable (PBool b) = True"
| "hashable (PInt i) = True"
| "hashable (PStr s) = True"
| "hashable (PTuple xs) = list_all hashable xs"
| "hashable v = False"

fun dict_get :: "(pv \<times> pv) list \<Rightarrow> pv \<Rightarrow> pv option" where
  "dict_get [] k = None"
| "dict_get ((k', v) # d) k = (if py_eq k' k then Some v else dict_get d k)"

text \<open>Storing under a key that is present keeps the key's place and replaces the value;
  a new key goes to the end.\<close>

fun dict_set :: "(pv \<times> pv) list \<Rightarrow> pv \<Rightarrow> pv \<Rightarrow> (pv \<times> pv) list" where
  "dict_set [] k v = [(k, v)]"
| "dict_set ((k', v') # d) k v =
     (if py_eq k' k then (k', v) # d else (k', v') # dict_set d k v)"

text \<open>\<^verbatim>\<open>x.items()\<close>, \<^verbatim>\<open>x.keys()\<close> and \<^verbatim>\<open>x.values()\<close> exist for the dictionary types only.\<close>

fun py_items :: "pv \<Rightarrow> py_error + (pv \<times> pv) list" where
  "py_items (PDict d) = Inr d"
| "py_items (PCounter d) = Inr d"
| "py_items (PDefaultDict d) = Inr d"
| "py_items v = Inl AttributeError"

definition py_keys :: "pv \<Rightarrow> py_error + pv list" where
  "py_keys x = (case py_items x of Inl e \<Rightarrow> Inl e | Inr d \<Rightarrow> Inr (map fst d))"

definition py_values :: "pv \<Rightarrow> py_error + pv list" where
  "py_values x = (case py_items x of Inl e \<Rightarrow> Inl e | Inr d \<Rightarrow> Inr (map snd d))"

text \<open>Iterating an object: the elements of a list or tuple, the characters of a string,
  the keys of a dictionary; anything else is not iterable.\<close>

fun py_iter :: "pv \<Rightarrow> py_error + pv list" where
  "py_iter (PList xs) = Inr xs"
| "py_iter (PTuple xs) = Inr xs"
| "py_iter (PStr s) = Inr (map (\<lambda>c. PStr [c]) s)"
| "py_iter (PDict d) = Inr (map fst d)"
| "py_iter (PCounter d) = Inr (map fst d)"
| "py_iter (PDefaultDict d) = Inr (map fst d)"
| "py_iter v = Inl TypeError"

text \<open>\<^verbatim>\<open>a, b = x\<close>: \<^verbatim>\<open>TypeError\<close> when \<open>x\<close> is not iterable, \<^verbatim>\<open>ValueError\<close> when it does
  not have exactly two elements.\<close>

definition unpack2 :: "pv \<Rightarrow> py_error + (pv \<times> pv)" where
  "unpack2 x =
     (case py_iter x of
        Inl e \<Rightarrow> Inl e
      | Inr [a, b] \<Rightarrow> Inr (a, b)
      | Inr _ \<Rightarrow> Inl ValueError)"

text \<open>The place that an integer index denotes in a sequence of the given length, an
  index below zero counting back from the end; none when it is out of range.\<close>

definition seq_position :: "nat \<Rightarrow> int \<Rightarrow> nat option" where
  "seq_position len i =
     (if 0 \<le> i \<and> i < int len then Some (nat i)
      else if i < 0 \<and> - int len \<le> i then Some (nat (int len + i))
      else None)"

definition seq_index :: "pv list \<Rightarrow> int \<Rightarrow> py_error + pv" where
  "seq_index xs i =
     (case seq_position (length xs) i of None \<Rightarrow> Inl IndexError | Some p \<Rightarrow> Inr (xs ! p))"

fun int_value :: "pv \<Rightarrow> int option" where
  "int_value (PInt i) = Some i"
| "int_value (PBool b) = Some (if b then 1 else 0)"
| "int_value v = None"

text \<open>
  \<^verbatim>\<open>x[k]\<close> as a read.  A plain dictionary raises \<^verbatim>\<open>KeyError\<close> for a missing key, a
  \<^verbatim>\<open>Counter\<close> answers 0.  (A \<^verbatim>\<open>defaultdict\<close> stores a new entry on a missing key;
  that read is \<open>defaultdict_getitem\<close> below.)  A sequence wants an integer.
\<close>

fun py_getitem :: "pv \<Rightarrow> pv \<Rightarrow> py_error + pv" where
  "py_getitem (PDict d) k =
     (if \<not> hashable k then Inl TypeError
      else case dict_get d k of None \<Rightarrow> Inl KeyError | Some v \<Rightarrow> Inr v)"
| "py_getitem (PCounter d) k =
     (if \<not> hashable k then Inl TypeError
      else case dict_get d k of None \<Rightarrow> Inr (PInt 0) | Some v \<Rightarrow> Inr v)"
| "py_getitem (PDefaultDict d) k =
     (if \<not> hashable k then Inl TypeError
      else case dict_get d k of None \<Rightarrow> Inr (PCounter []) | Some v \<Rightarrow> Inr v)"
| "py_getitem (PList xs) k =
     (case int_value k of None \<Rightarrow> Inl TypeError | Some i \<Rightarrow> seq_index xs i)"
| "py_getitem (PTuple xs) k =
     (case int_value k of None \<Rightarrow> Inl TypeError | Some i \<Rightarrow> seq_index xs i)"
| "py_getitem (PStr s) k =
     (case int_value k of None \<Rightarrow> Inl TypeError
      | Some i \<Rightarrow> seq_index (map (\<lambda>c. PStr [c]) s) i)"
| "py_getitem v k = Inl TypeError"

text \<open>
  The object a \<^verbatim>\<open>defaultdict(Counter)\<close> is after the read \<^verbatim>\<open>x[k]\<close>: a missing key has
  been given an empty \<^verbatim>\<open>Counter\<close>.  Other objects are not changed by a read.
\<close>

fun after_getitem :: "pv \<Rightarrow> pv \<Rightarrow> pv" where
  "after_getitem (PDefaultDict d) k =
     (if hashable k \<and> dict_get d k = None then PDefaultDict (dict_set d k (PCounter []))
      else PDefaultDict d)"
| "after_getitem v k = v"

text \<open>\<^verbatim>\<open>x[k] = v\<close>, giving the object as it is afterwards.\<close>

fun py_setitem :: "pv \<Rightarrow> pv \<Rightarrow> pv \<Rightarrow> py_error + pv" where
  "py_setitem (PDict d) k v =
     (if \<not> hashable k then Inl TypeError else Inr (PDict (dict_set d k v)))"
| "py_setitem (PCounter d) k v =
     (if \<not> hashable k then Inl TypeError else Inr (PCounter (dict_set d k v)))"
| "py_setitem (PDefaultDict d) k v =
     (if \<not> hashable k then Inl TypeError else Inr (PDefaultDict (dict_set d k v)))"
| "py_setitem (PList xs) k v =
     (case int_value k of
        None \<Rightarrow> Inl TypeError
      | Some i \<Rightarrow>
          (case seq_position (length xs) i of
             None \<Rightarrow> Inl IndexError
           | Some p \<Rightarrow> Inr (PList (xs[p := v]))))"
| "py_setitem x k v = Inl TypeError"

text \<open>\<^verbatim>\<open>x + 1\<close>, the right-hand side of \<^verbatim>\<open>x += 1\<close> for the objects that have it.\<close>

definition py_add1 :: "pv \<Rightarrow> py_error + pv" where
  "py_add1 x = (case int_value x of None \<Rightarrow> Inl TypeError | Some i \<Rightarrow> Inr (PInt (i + 1)))"

text \<open>
  \<^verbatim>\<open>dict(x)\<close>: a copy of a dictionary as a plain one; or the dictionary of a sequence of
  pairs, the later of two equal keys giving the value.
\<close>

fun dict_of_pairs :: "(pv \<times> pv) list \<Rightarrow> pv list \<Rightarrow> py_error + (pv \<times> pv) list" where
  "dict_of_pairs d [] = Inr d"
| "dict_of_pairs d (x # xs) =
     (case py_iter x of
        Inl e \<Rightarrow> Inl TypeError
      | Inr [k, v] \<Rightarrow> (if hashable k then dict_of_pairs (dict_set d k v) xs else Inl TypeError)
      | Inr _ \<Rightarrow> Inl ValueError)"

fun py_dict :: "pv \<Rightarrow> py_error + pv" where
  "py_dict (PDict d) = Inr (PDict d)"
| "py_dict (PCounter d) = Inr (PDict d)"
| "py_dict (PDefaultDict d) = Inr (PDict d)"
| "py_dict x =
     (case py_iter x of
        Inl e \<Rightarrow> Inl e
      | Inr xs \<Rightarrow> (case dict_of_pairs [] xs of Inl e \<Rightarrow> Inl e | Inr d \<Rightarrow> Inr (PDict d)))"

text \<open>\<^verbatim>\<open>tuple(x)\<close>.\<close>

definition py_tuple :: "pv \<Rightarrow> py_error + pv" where
  "py_tuple x = (case py_iter x of Inl e \<Rightarrow> Inl e | Inr xs \<Rightarrow> Inr (PTuple xs))"

text \<open>\<^verbatim>\<open>sum(xs)\<close> of integers, starting from 0.\<close>

fun py_sum :: "pv list \<Rightarrow> py_error + int" where
  "py_sum [] = Inr 0"
| "py_sum (x # xs) =
     (case int_value x of
        None \<Rightarrow> Inl TypeError
      | Some i \<Rightarrow> (case py_sum xs of Inl e \<Rightarrow> Inl e | Inr s \<Rightarrow> Inr (i + s)))"

subsection \<open>Strings\<close>

text \<open>
  \<^verbatim>\<open>str.strip()\<close>, \<^verbatim>\<open>str.lower()\<close>, \<^verbatim>\<open>str.strip(chars)\<close>, and \<^verbatim>\<open>str.startswith\<close>
  and \<^verbatim>\<open>str.endswith\<close> with a one-character argument.  Among the first 256 code
  points the whitespace characters are 9 to 13, 28 to 32, 133 and 160, and the upper-case
  letters are \<^verbatim>\<open>A\<close> to \<^verbatim>\<open>Z\<close> and 192 to 222 without 215, each 32 below its lower-case
  letter.
\<close>

definition is_space :: "char \<Rightarrow> bool" where
  "is_space c =
     (let n = (of_char c :: nat)
      in (9 \<le> n \<and> n \<le> 13) \<or> (28 \<le> n \<and> n \<le> 32) \<or> n = 133 \<or> n = 160)"

definition strip_chars :: "(char \<Rightarrow> bool) \<Rightarrow> string \<Rightarrow> string" where
  "strip_chars P s = rev (dropWhile P (rev (dropWhile P s)))"

definition py_strip :: "string \<Rightarrow> string" where
  "py_strip s = strip_chars is_space s"

definition is_upper :: "char \<Rightarrow> bool" where
  "is_upper c =
     (let n = (of_char c :: nat)
      in (65 \<le> n \<and> n \<le> 90) \<or> (192 \<le> n \<and> n \<le> 222 \<and> n \<noteq> 215))"

definition lower_char :: "char \<Rightarrow> char" where
  "lower_char c = (if is_upper c then char_of ((of_char c :: nat) + 32) else c)"

definition py_lower :: "string \<Rightarrow> string" where
  "py_lower s = map lower_char s"

definition startswith :: "string \<Rightarrow> char \<Rightarrow> bool" where
  "startswith s c = (s \<noteq> [] \<and> hd s = c)"

definition endswith :: "string \<Rightarrow> char \<Rightarrow> bool" where
  "endswith s c = (s \<noteq> [] \<and> last s = c)"

subsection \<open>The generator object and the shared vowel sets\<close>

text \<open>
  \<^verbatim>\<open>seed\<close> keeps a reference to the set it is given and adds the marker to that very
  set, so sets live in a store, addressed by references.  The class attribute
  \<^verbatim>\<open>ENGLISH_VOWELS\<close>, which is also the default of the \<^verbatim>\<open>vowels\<close> parameters, is one
  fixed address of that store.
\<close>

type_synonym ref = nat

type_synonym heap = "ref \<Rightarrow> char set"

definition ENGLISH_VOWELS :: ref where
  "ENGLISH_VOWELS = 0"

definition class_heap :: heap where
  "class_heap = (\<lambda>r. {})(ENGLISH_VOWELS := english_vowels)"

text \<open>
  The instance attributes.  \<^verbatim>\<open>__init__\<close> sets \<^verbatim>\<open>marker\<close> and \<^verbatim>\<open>weighted\<close>; the other
  four exist only once \<^verbatim>\<open>seed\<close> or \<^verbatim>\<open>load\<close> has assigned them, and reading one that
  does not exist raises \<^verbatim>\<open>AttributeError\<close>.  \<^verbatim>\<open>regex\<close> is the class of the compiled
  expression.
\<close>

record generator =
  marker :: string
  weighted :: pv
  vowels :: "ref option"
  regex :: "char set option"
  components :: "pv option"
  starts :: "pv option"

subsection \<open>Seeding\<close>

text \<open>
  What a caller passes as \<^verbatim>\<open>dictionary\<close> or \<^verbatim>\<open>language\<close>: nothing (\<^verbatim>\<open>None\<close>), a string
  (a file name for \<^verbatim>\<open>open\<close>), a list of strings, or an iterator of strings such as an
  open file.  An empty string and an empty list count as false, an iterator as true.
\<close>

datatype source = Absent | Path string | Words "string list" | Lines "string list"

fun given :: "source \<Rightarrow> bool" where
  "given Absent = False"
| "given (Path p) = (p \<noteq> [])"
| "given (Words ws) = (ws \<noteq> [])"
| "given (Lines ls) = True"

fun items :: "source \<Rightarrow> string list" where
  "items Absent = []"
| "items (Path p) = map (\<lambda>c. [c]) p"
| "items (Words ws) = ws"
| "items (Lines ls) = ls"

text \<open>The readable files, by name, each as its lines.  \<^verbatim>\<open>open\<close> of something that is
  not a file name raises \<^verbatim>\<open>TypeError\<close>, and of a name with a null character in it
  \<^verbatim>\<open>ValueError\<close>.\<close>

type_synonym files = "string \<Rightarrow> string list option"

fun open_file :: "files \<Rightarrow> source \<Rightarrow> py_error + string list" where
  "open_file fs (Path p) =
     (if char_of (0::nat) \<in> set p then Inl ValueError
      else case fs p of None \<Rightarrow> Inl OSError | Some ls \<Rightarrow> Inr ls)"
| "open_file fs x = Inl TypeError"

text \<open>\<^verbatim>\<open>(item.strip().lower() for item in language if item)\<close>\<close>

definition words_of :: "source \<Rightarrow> string list" where
  "words_of language = map (\<lambda>item. py_lower (py_strip item)) (filter (\<lambda>item. item \<noteq> []) (items language))"

text \<open>
  \<^verbatim>\<open>self.starts[key] += 1\<close>: read the attribute, read the entry, add, store.  The result
  is the exception raised, if any, and the object as it is then.
\<close>

definition incr_starts :: "generator \<Rightarrow> string \<Rightarrow> py_error option \<times> generator" where
  "incr_starts g key =
     (case starts g of
        None \<Rightarrow> (Some AttributeError, g)
      | Some s \<Rightarrow>
          (case py_getitem s (PStr key) of
             Inl e \<Rightarrow> (Some e, g)
           | Inr v \<Rightarrow>
               (case py_add1 v of
                  Inl e \<Rightarrow> (Some e, g)
                | Inr v' \<Rightarrow>
                    (case py_setitem s (PStr key) v' of
                       Inl e \<Rightarrow> (Some e, g)
                     | Inr s' \<Rightarrow> (None, g\<lparr>starts := Some s'\<rparr>)))))"

text \<open>
  \<^verbatim>\<open>self.components[key][value] += 1\<close>.  The read of \<^verbatim>\<open>self.components[key]\<close> stores an
  empty \<^verbatim>\<open>Counter\<close> when \<^verbatim>\<open>components\<close> is the \<^verbatim>\<open>defaultdict\<close> and the key is new; the
  inner object is changed in place, so the change shows in \<^verbatim>\<open>components\<close>.
\<close>

definition incr_components :: "generator \<Rightarrow> string \<Rightarrow> string \<times> string \<Rightarrow> py_error option \<times> generator" where
  "incr_components g key value =
     (case components g of
        None \<Rightarrow> (Some AttributeError, g)
      | Some c \<Rightarrow>
          (case py_getitem c (PStr key) of
             Inl e \<Rightarrow> (Some e, g)
           | Inr inner \<Rightarrow>
               (let c1 = after_getitem c (PStr key);
                    g1 = g\<lparr>components := Some c1\<rparr>;
                    tup = PTuple [PStr (fst value), PStr (snd value)]
                in case py_getitem inner tup of
                     Inl e \<Rightarrow> (Some e, g1)
                   | Inr v \<Rightarrow>
                       (case py_add1 v of
                          Inl e \<Rightarrow> (Some e, g1)
                        | Inr v' \<Rightarrow>
                            (case py_setitem inner tup v' of
                               Inl e \<Rightarrow> (Some e, g1)
                             | Inr inner' \<Rightarrow>
                                 (case py_setitem c1 (PStr key) inner' of
                                    Inl e \<Rightarrow> (Some e, g1)
                                  | Inr c2 \<Rightarrow> (None, g\<lparr>components := Some c2\<rparr>)))))))"

text \<open>The body of the \<^verbatim>\<open>for key, value in ...\<close> loop, over the pairs of all words in
  order; an exception ends it with the tables as they are.\<close>

fun seed_pairs :: "generator \<Rightarrow> (string \<times> string \<times> string) list \<Rightarrow> py_error option \<times> generator" where
  "seed_pairs g [] = (None, g)"
| "seed_pairs g ((key, value) # ps) =
     (case (if startswith key MARKER then incr_starts g key else (None, g)) of
        (Some e, g1) \<Rightarrow> (Some e, g1)
      | (None, g1) \<Rightarrow>
          (case incr_components g1 key value of
             (Some e, g2) \<Rightarrow> (Some e, g2)
           | (None, g2) \<Rightarrow> seed_pairs g2 ps))"

text \<open>A function applied to the elements in order, up to the first exception.\<close>

fun map_result :: "('a \<Rightarrow> py_error + 'b) \<Rightarrow> 'a list \<Rightarrow> py_error + 'b list" where
  "map_result f [] = Inr []"
| "map_result f (x # xs) =
     (case f x of
        Inl e \<Rightarrow> Inl e
      | Inr y \<Rightarrow> (case map_result f xs of Inl e \<Rightarrow> Inl e | Inr ys \<Rightarrow> Inr (y # ys)))"

text \<open>A dictionary comprehension stores its entries one after the other.\<close>

definition dict_of_items :: "(pv \<times> pv) list \<Rightarrow> (pv \<times> pv) list" where
  "dict_of_items kvs = foldl (\<lambda>d (k, v). dict_set d k v) [] kvs"

text \<open>
  The end of the \<^verbatim>\<open>language\<close> branch: the tables become plain dictionaries when the
  generator is weighted, and a dictionary of lists of keys and a list of keys when it
  is not.
\<close>

definition freeze :: "generator \<Rightarrow> py_error option \<times> generator" where
  "freeze g =
     (case components g of
        None \<Rightarrow> (Some AttributeError, g)
      | Some c \<Rightarrow>
          (case py_items c of
             Inl e \<Rightarrow> (Some e, g)
           | Inr kvs \<Rightarrow>
               (if truthy (weighted g) then
                  (case map_result (\<lambda>(key, value).
                          case py_dict value of Inl e \<Rightarrow> Inl e | Inr d \<Rightarrow> Inr (key, d)) kvs of
                     Inl e \<Rightarrow> (Some e, g)
                   | Inr kds \<Rightarrow>
                       (let g1 = g\<lparr>components := Some (PDict (dict_of_items kds))\<rparr>
                        in case starts g1 of
                             None \<Rightarrow> (Some AttributeError, g1)
                           | Some s \<Rightarrow>
                               (case py_dict s of
                                  Inl e \<Rightarrow> (Some e, g1)
                                | Inr s' \<Rightarrow> (None, g1\<lparr>starts := Some s'\<rparr>))))
                else
                  (case map_result (\<lambda>(key, value).
                          case py_keys value of Inl e \<Rightarrow> Inl e | Inr ks \<Rightarrow> Inr (key, PList ks)) kvs of
                     Inl e \<Rightarrow> (Some e, g)
                   | Inr kls \<Rightarrow>
                       (let g1 = g\<lparr>components := Some (PDict (dict_of_items kls))\<rparr>
                        in case starts g1 of
                             None \<Rightarrow> (Some AttributeError, g1)
                           | Some s \<Rightarrow>
                               (case py_keys s of
                                  Inl e \<Rightarrow> (Some e, g1)
                                | Inr ks \<Rightarrow> (None, g1\<lparr>starts := Some (PList ks)\<rparr>)))))))"

text \<open>
  The first statements of \<^verbatim>\<open>seed\<close>: keep the reference to the vowel set, add the marker
  to that set, compile the expression from it, and start new tables unless appending.
\<close>

definition seed_begin :: "heap \<Rightarrow> generator \<Rightarrow> ref \<Rightarrow> bool \<Rightarrow> heap \<times> generator" where
  "seed_begin h g vowels_ref append_arg =
     (let h1 = h(vowels_ref := insert MARKER (h vowels_ref));
          g1 = g\<lparr>vowels := Some vowels_ref, regex := Some (h1 vowels_ref)\<rparr>
      in (h1, if append_arg then g1
              else g1\<lparr>components := Some (PDefaultDict []), starts := Some (PCounter [])\<rparr>))"

text \<open>The \<^verbatim>\<open>elif language and not dictionary\<close> branch.\<close>

definition seed_words :: "generator \<Rightarrow> source \<Rightarrow> py_error option \<times> generator" where
  "seed_words g language =
     (case regex g of
        None \<Rightarrow> (Some AttributeError, g)
      | Some rx \<Rightarrow>
          (case seed_pairs g (concat (map (split_word rx) (words_of language))) of
             (Some e, g1) \<Rightarrow> (Some e, g1)
           | (None, g1) \<Rightarrow> freeze g1))"

text \<open>
  \<^verbatim>\<open>self.seed(language=x)\<close>, the call that \<^verbatim>\<open>seed\<close> makes on itself in its
  \<^verbatim>\<open>dictionary\<close> branch: no dictionary, the default vowels, no appending.  With no
  dictionary the call cannot reach that branch again.
\<close>

definition seed_language :: "heap \<Rightarrow> generator \<Rightarrow> source \<Rightarrow> ref \<Rightarrow> bool \<Rightarrow> py_error option \<times> heap \<times> generator" where
  "seed_language h g language vowels_ref append_arg =
     (case seed_begin h g vowels_ref append_arg of
        (h1, g1) \<Rightarrow>
          (if given language then (case seed_words g1 language of (e, g2) \<Rightarrow> (e, h1, g2))
           else (Some ValueError, h1, g1)))"

text \<open>\<^verbatim>\<open>seed(dictionary, language, vowels, append)\<close>.\<close>

definition seed :: "files \<Rightarrow> heap \<Rightarrow> generator \<Rightarrow> source \<Rightarrow> source \<Rightarrow> ref \<Rightarrow> bool \<Rightarrow> py_error option \<times> heap \<times> generator" where
  "seed fs h g dictionary language vowels_ref append_arg =
     (case seed_begin h g vowels_ref append_arg of
        (h1, g1) \<Rightarrow>
          (if given dictionary \<and> \<not> given language then
             (case open_file fs dictionary of
                Inr file \<Rightarrow>
                  (case seed_language h1 g1 (Lines file) ENGLISH_VOWELS False of
                     (Some TypeError, h2, g2) \<Rightarrow> seed_language h2 g2 dictionary ENGLISH_VOWELS False
                   | r \<Rightarrow> r)
              | Inl TypeError \<Rightarrow> seed_language h1 g1 dictionary ENGLISH_VOWELS False
              | Inl e \<Rightarrow> (Some e, h1, g1))
           else if given language \<and> \<not> given dictionary then
             (case seed_words g1 language of (e, g2) \<Rightarrow> (e, h1, g2))
           else (Some ValueError, h1, g1)))"

text \<open>\<^verbatim>\<open>WordGenerator(dictionary, language, weighted, vowels)\<close>\<close>

definition init :: "files \<Rightarrow> heap \<Rightarrow> source \<Rightarrow> source \<Rightarrow> pv \<Rightarrow> ref \<Rightarrow> py_error option \<times> heap \<times> generator" where
  "init fs h dictionary language weighted_arg vowels_ref =
     (let g = \<lparr>marker = [MARKER], weighted = weighted_arg, vowels = None, regex = None,
               components = None, starts = None\<rparr>
      in if given dictionary \<or> given language
         then seed fs h g dictionary language vowels_ref False
         else (None, h, g))"

subsection \<open>Random choice\<close>

text \<open>
  The random source is the sequence of values that \<^verbatim>\<open>random.random()\<close> returns, each in
  \<open>[0, 1)\<close>; every call below takes the next one.  A run that needs a value when the
  sequence is used up has no result (\<open>None\<close>): it is a run that is still going on.
  \<^verbatim>\<open>random.uniform(a, b)\<close> is \<^verbatim>\<open>a + (b - a) * random()\<close>; \<^verbatim>\<open>random.choice(seq)\<close> raises
  \<^verbatim>\<open>IndexError\<close> for an empty sequence (CPython 3.11) and otherwise indexes it at a
  number below its length, here the integer part of \<^verbatim>\<open>random() * len(seq)\<close>.  The
  values are real numbers: the rounding of floating-point arithmetic is not part of the
  model.
\<close>

definition uniform :: "real \<Rightarrow> real \<Rightarrow> real \<Rightarrow> real" where
  "uniform a b u = a + (b - a) * u"

fun py_len :: "pv \<Rightarrow> py_error + nat" where
  "py_len (PStr s) = Inr (length s)"
| "py_len (PList xs) = Inr (length xs)"
| "py_len (PTuple xs) = Inr (length xs)"
| "py_len (PDict d) = Inr (length d)"
| "py_len (PCounter d) = Inr (length d)"
| "py_len (PDefaultDict d) = Inr (length d)"
| "py_len v = Inl TypeError"

definition random_choice :: "pv \<Rightarrow> real list \<Rightarrow> ((py_error + pv) \<times> real list) option" where
  "random_choice seq ds =
     (case py_len seq of
        Inl e \<Rightarrow> Some (Inl e, ds)
      | Inr n \<Rightarrow>
          (if n = 0 then Some (Inl IndexError, ds)
           else (case ds of
                   [] \<Rightarrow> None
                 | u # ds' \<Rightarrow> Some (py_getitem seq (PInt \<lfloor>u * real n\<rfloor>), ds'))))"

text \<open>
  The loop of \<^verbatim>\<open>_weighted_random_choice\<close>: \<^verbatim>\<open>current += value\<close>, and the key is returned
  as soon as \<^verbatim>\<open>current > pick\<close>.  When the loop ends without that, the function returns
  \<^verbatim>\<open>None\<close>.
\<close>

fun walk :: "(pv \<times> pv) list \<Rightarrow> int \<Rightarrow> real \<Rightarrow> py_error + pv" where
  "walk [] current pick = Inr PNone"
| "walk ((key, value) # kvs) current pick =
     (case int_value value of
        None \<Rightarrow> Inl TypeError
      | Some v \<Rightarrow>
          (if real_of_int (current + v) > pick then Inr key
           else walk kvs (current + v) pick))"

text \<open>\<^verbatim>\<open>_weighted_random_choice(choices)\<close>\<close>

definition u_weighted_random_choice :: "generator \<Rightarrow> pv \<Rightarrow> real list \<Rightarrow> ((py_error + pv) \<times> real list) option" where
  "u_weighted_random_choice g choices ds =
     (if truthy (weighted g) then
        (case py_values choices of
           Inl e \<Rightarrow> Some (Inl e, ds)
         | Inr vs \<Rightarrow>
             (case py_sum vs of
                Inl e \<Rightarrow> Some (Inl e, ds)
              | Inr mx \<Rightarrow>
                  (case ds of
                     [] \<Rightarrow> None
                   | u # ds' \<Rightarrow>
                       (case py_items choices of
                          Inl e \<Rightarrow> Some (Inl e, ds')
                        | Inr kvs \<Rightarrow> Some (walk kvs 0 (uniform 0 (real_of_int mx) u), ds')))))
      else random_choice choices ds)"

lemma u_weighted_random_choice_consumes:
  assumes "u_weighted_random_choice g choices ds = Some (Inr p, ds1)"
  shows "length ds1 < length ds"
  using assms
  by (auto simp: u_weighted_random_choice_def random_choice_def
           split: if_splits sum.splits list.splits)

subsection \<open>Generating a word\<close>

text \<open>
  The \<^verbatim>\<open>while True\<close> loop of \<^verbatim>\<open>_generate_word\<close>, entered with the word so far and the
  current segment.  Appending something that is not a string to the word raises
  \<^verbatim>\<open>TypeError\<close>.  The result is the word or the exception, the object (a read of the
  \<^verbatim>\<open>defaultdict\<close> can store), and the random values left.
\<close>

function generate_loop :: "generator \<Rightarrow> string \<Rightarrow> pv \<Rightarrow> real list \<Rightarrow> ((py_error + string) \<times> generator \<times> real list) option" where
  "generate_loop g word current ds =
     (case current of
        PStr cur \<Rightarrow>
          (if endswith cur MARKER \<and> word @ cur \<noteq> [MARKER]
           then Some (Inr (strip_chars (\<lambda>c. c = MARKER) (word @ cur)), g, ds)
           else (case components g of
                   None \<Rightarrow> Some (Inl AttributeError, g, ds)
                 | Some c \<Rightarrow>
                     (case py_getitem c current of
                        Inl e \<Rightarrow> Some (Inl e, g, ds)
                      | Inr choices \<Rightarrow>
                          (case u_weighted_random_choice
                                  (g\<lparr>components := Some (after_getitem c current)\<rparr>) choices ds of
                             None \<Rightarrow> None
                           | Some (Inl e, ds1) \<Rightarrow>
                               Some (Inl e, g\<lparr>components := Some (after_getitem c current)\<rparr>, ds1)
                           | Some (Inr p, ds1) \<Rightarrow>
                               (case unpack2 p of
                                  Inl e \<Rightarrow>
                                    Some (Inl e, g\<lparr>components := Some (after_getitem c current)\<rparr>, ds1)
                                | Inr (nxt, current1) \<Rightarrow>
                                    (case nxt of
                                       PStr n \<Rightarrow>
                                         generate_loop
                                           (g\<lparr>components := Some (after_getitem c current)\<rparr>)
                                           ((word @ cur) @ n) current1 ds1
                                     | _ \<Rightarrow>
                                         Some (Inl TypeError,
                                               g\<lparr>components := Some (after_getitem c current)\<rparr>, ds1)))))))
      | _ \<Rightarrow> Some (Inl TypeError, g, ds))"
  by pat_completeness auto
termination
  by (relation "measure (\<lambda>(g, word, current, ds). length ds)")
     (auto dest: u_weighted_random_choice_consumes)

declare generate_loop.simps [simp del]

text \<open>\<^verbatim>\<open>_generate_word()\<close>\<close>

definition u_generate_word :: "generator \<Rightarrow> real list \<Rightarrow> ((py_error + string) \<times> generator \<times> real list) option" where
  "u_generate_word g ds =
     (case components g of
        None \<Rightarrow> Some (Inl AttributeError, g, ds)
      | Some c \<Rightarrow>
          (if \<not> truthy c then Some (Inl EmptyDictionaryError, g, ds)
           else (case starts g of
                   None \<Rightarrow> Some (Inl AttributeError, g, ds)
                 | Some s \<Rightarrow>
                     (case u_weighted_random_choice g s ds of
                        None \<Rightarrow> None
                      | Some (Inl e, ds1) \<Rightarrow> Some (Inl e, g, ds1)
                      | Some (Inr current, ds1) \<Rightarrow> generate_loop g [] current ds1))))"

lemma u_weighted_random_choice_le:
  assumes "u_weighted_random_choice g choices ds = Some (r, ds1)"
  shows "length ds1 \<le> length ds"
  using assms
  by (auto simp: u_weighted_random_choice_def random_choice_def
           split: if_splits sum.splits list.splits)

lemma generate_loop_consumes:
  "generate_loop g word current ds = Some (r, g1, ds1) \<Longrightarrow> length ds1 \<le> length ds"
proof (induction g word current ds rule: generate_loop.induct)
  case (1 g word current ds)
  show ?case
  proof (cases current)
    case (PStr cur)
    note unf0 = "1.prems" [unfolded generate_loop.simps [of g word current ds]]
    note unf = unf0 [unfolded PStr pv.case]
    show ?thesis
    proof (cases "endswith cur MARKER \<and> word @ cur \<noteq> [MARKER]")
      case True
      with unf show ?thesis
        by simp
    next
      case False
      with unf consider (rec) c choices p ds' nxt current1 n where
        "components g = Some c" "py_getitem c current = Inr choices"
        "u_weighted_random_choice (g\<lparr>components := Some (after_getitem c current)\<rparr>) choices ds = Some (Inr p, ds')"
        "unpack2 p = Inr (nxt, current1)" "nxt = PStr n"
        "generate_loop (g\<lparr>components := Some (after_getitem c current)\<rparr>) ((word @ cur) @ n) current1 ds' = Some (r, g1, ds1)"
        | (stop) "length ds1 \<le> length ds"
        by (auto simp: PStr split: option.splits sum.splits prod.splits pv.splits
              dest: u_weighted_random_choice_le)
      then show ?thesis
      proof cases
        case rec
        have "length ds1 \<le> length ds'"
          using "1.IH" [OF PStr False rec(1) rec(2) rec(3) refl refl rec(4) refl rec(5) rec(6)] .
        moreover have "length ds' < length ds"
          using u_weighted_random_choice_consumes [OF rec(3)] .
        ultimately show ?thesis by simp
      qed simp
    qed
  qed (use "1.prems" in \<open>simp_all add: generate_loop.simps [of g word]\<close>)
qed

lemma u_generate_word_consumes:
  assumes "u_generate_word g ds = Some (Inr w, g1, ds1)"
  shows "length ds1 < length ds"
  using assms
proof -
  from assms obtain c s current ds' where
    "u_weighted_random_choice g s ds = Some (Inr current, ds')"
    "generate_loop g [] current ds' = Some (Inr w, g1, ds1)"
    by (auto simp: u_generate_word_def
          split: option.splits if_splits sum.splits prod.splits)
  then show ?thesis
    using u_weighted_random_choice_consumes generate_loop_consumes
    by fastforce
qed

subsection \<open>Length limits\<close>

text \<open>
  \<^verbatim>\<open>generate\<close> first tries \<^verbatim>\<open>minimum, maximum = limit\<close>, and on \<^verbatim>\<open>TypeError\<close> (the limit
  is not iterable) takes 0 and the limit itself.  A limit that is iterable without
  having two elements raises \<^verbatim>\<open>ValueError\<close>, which is not caught.
\<close>

definition limits :: "pv \<Rightarrow> py_error + (pv \<times> pv)" where
  "limits limit =
     (case unpack2 limit of
        Inl TypeError \<Rightarrow> Inr (PInt 0, limit)
      | Inl e \<Rightarrow> Inl e
      | Inr (minimum, maximum) \<Rightarrow> Inr (minimum, maximum))"

text \<open>\<^verbatim>\<open>a < b\<close> where one side is the integer \<^verbatim>\<open>len(item)\<close>: the other side has to be a
  number.\<close>

definition py_lt :: "pv \<Rightarrow> pv \<Rightarrow> py_error + bool" where
  "py_lt a b =
     (case (int_value a, int_value b) of
        (Some i, Some j) \<Rightarrow> Inr (i < j)
      | _ \<Rightarrow> Inl TypeError)"

text \<open>
  One \<^verbatim>\<open>next()\<close> of the generator expression
  \<^verbatim>\<open>(item for item in self if minimum < len(item) < maximum)\<close>, where iterating \<^verbatim>\<open>self\<close>
  calls \<^verbatim>\<open>_generate_word()\<close> for every item.  The chained comparison evaluates its
  second half only when the first half is true.
\<close>

function genexpr_next :: "generator \<Rightarrow> pv \<Rightarrow> pv \<Rightarrow> real list \<Rightarrow> ((py_error + string) \<times> generator \<times> real list) option" where
  "genexpr_next g minimum maximum ds =
     (case u_generate_word g ds of
        None \<Rightarrow> None
      | Some (Inl e, g1, ds1) \<Rightarrow> Some (Inl e, g1, ds1)
      | Some (Inr item, g1, ds1) \<Rightarrow>
          (case py_lt minimum (PInt (int (length item))) of
             Inl e \<Rightarrow> Some (Inl e, g1, ds1)
           | Inr False \<Rightarrow> genexpr_next g1 minimum maximum ds1
           | Inr True \<Rightarrow>
               (case py_lt (PInt (int (length item))) maximum of
                  Inl e \<Rightarrow> Some (Inl e, g1, ds1)
                | Inr False \<Rightarrow> genexpr_next g1 minimum maximum ds1
                | Inr True \<Rightarrow> Some (Inr item, g1, ds1))))"
  by pat_completeness auto
termination
  by (relation "measure (\<lambda>(g, minimum, maximum, ds). length ds)")
     (auto dest: u_generate_word_consumes)

declare genexpr_next.simps [simp del]

text \<open>\<^verbatim>\<open>__iter__\<close> yields \<^verbatim>\<open>_generate_word()\<close> for ever; one \<^verbatim>\<open>next()\<close> of it is one call.\<close>

definition iter_next :: "generator \<Rightarrow> real list \<Rightarrow> ((py_error + string) \<times> generator \<times> real list) option" where
  "iter_next g ds = u_generate_word g ds"



text \<open>\<^verbatim>\<open>generate_word(limit)\<close> is \<^verbatim>\<open>next(self.generate(limit))\<close>.\<close>

definition generate_word :: "generator \<Rightarrow> pv \<Rightarrow> real list \<Rightarrow> ((py_error + string) \<times> generator \<times> real list) option" where
  "generate_word g limit ds =
     (case limits limit of
        Inl e \<Rightarrow> Some (Inl e, g, ds)
      | Inr (minimum, maximum) \<Rightarrow> genexpr_next g minimum maximum ds)"

subsection \<open>Saving and loading\<close>

text \<open>
  The file holds the text of a JSON document.  \<^verbatim>\<open>json.dump\<close> writes lists and tuples as
  arrays and dictionaries as objects, whose keys have to be strings, numbers, booleans
  or \<^verbatim>\<open>None\<close> and are written as strings; \<^verbatim>\<open>json.load\<close> reads arrays as lists and
  objects as dictionaries, the last of several equal keys giving the value.
\<close>

datatype json =
    JNull
  | JBool bool
  | JInt int
  | JStr string
  | JArr "json list"
  | JObj "(string \<times> json) list"

function dec :: "nat \<Rightarrow> string" where
  "dec n = (if n < 10 then [char_of (48 + n)] else dec (n div 10) @ [char_of (48 + n mod 10)])"
  by pat_completeness auto
termination
  by (relation "measure id") auto

declare dec.simps [simp del]

definition str_of_int :: "int \<Rightarrow> string" where
  "str_of_int i = (if i < 0 then CHR ''-'' # dec (nat (- i)) else dec (nat i))"

fun json_key :: "pv \<Rightarrow> py_error + string" where
  "json_key (PStr s) = Inr s"
| "json_key (PInt i) = Inr (str_of_int i)"
| "json_key (PBool b) = Inr (if b then ''true'' else ''false'')"
| "json_key PNone = Inr ''null''"
| "json_key v = Inl TypeError"

fun to_json :: "pv \<Rightarrow> py_error + json"
  and to_json_list :: "pv list \<Rightarrow> py_error + json list"
  and to_json_items :: "(pv \<times> pv) list \<Rightarrow> py_error + (string \<times> json) list" where
  "to_json PNone = Inr JNull"
| "to_json (PBool b) = Inr (JBool b)"
| "to_json (PInt i) = Inr (JInt i)"
| "to_json (PStr s) = Inr (JStr s)"
| "to_json (PList xs) = (case to_json_list xs of Inl e \<Rightarrow> Inl e | Inr js \<Rightarrow> Inr (JArr js))"
| "to_json (PTuple xs) = (case to_json_list xs of Inl e \<Rightarrow> Inl e | Inr js \<Rightarrow> Inr (JArr js))"
| "to_json (PDict d) = (case to_json_items d of Inl e \<Rightarrow> Inl e | Inr kjs \<Rightarrow> Inr (JObj kjs))"
| "to_json (PCounter d) = (case to_json_items d of Inl e \<Rightarrow> Inl e | Inr kjs \<Rightarrow> Inr (JObj kjs))"
| "to_json (PDefaultDict d) = (case to_json_items d of Inl e \<Rightarrow> Inl e | Inr kjs \<Rightarrow> Inr (JObj kjs))"
| "to_json_list [] = Inr []"
| "to_json_list (x # xs) =
     (case to_json x of
        Inl e \<Rightarrow> Inl e
      | Inr j \<Rightarrow> (case to_json_list xs of Inl e \<Rightarrow> Inl e | Inr js \<Rightarrow> Inr (j # js)))"
| "to_json_items [] = Inr []"
| "to_json_items ((k, v) # d) =
     (case json_key k of
        Inl e \<Rightarrow> Inl e
      | Inr s \<Rightarrow>
          (case to_json v of
             Inl e \<Rightarrow> Inl e
           | Inr j \<Rightarrow> (case to_json_items d of Inl e \<Rightarrow> Inl e | Inr kjs \<Rightarrow> Inr ((s, j) # kjs))))"

fun of_json :: "json \<Rightarrow> pv"
  and of_json_list :: "json list \<Rightarrow> pv list"
  and of_json_items :: "(pv \<times> pv) list \<Rightarrow> (string \<times> json) list \<Rightarrow> (pv \<times> pv) list" where
  "of_json JNull = PNone"
| "of_json (JBool b) = PBool b"
| "of_json (JInt i) = PInt i"
| "of_json (JStr s) = PStr s"
| "of_json (JArr js) = PList (of_json_list js)"
| "of_json (JObj kjs) = PDict (of_json_items [] kjs)"
| "of_json_list [] = []"
| "of_json_list (j # js) = of_json j # of_json_list js"
| "of_json_items d [] = d"
| "of_json_items d ((k, j) # kjs) = of_json_items (dict_set d (PStr k) (of_json j)) kjs"

text \<open>
  \<^verbatim>\<open>save(file)\<close>: every value of \<^verbatim>\<open>components\<close> becomes the list of its
  \<^verbatim>\<open>(value, count)\<close> items, which needs it to be a dictionary.  The result is the
  document written.
\<close>

definition save :: "generator \<Rightarrow> py_error + json" where
  "save g =
     (case components g of
        None \<Rightarrow> Inl AttributeError
      | Some c \<Rightarrow>
          (case py_items c of
             Inl e \<Rightarrow> Inl e
           | Inr kvs \<Rightarrow>
               (case map_result (\<lambda>(key, values).
                       case py_items values of
                         Inl e \<Rightarrow> Inl e
                       | Inr its \<Rightarrow> Inr (key, PList (map (\<lambda>(k, v). PTuple [k, v]) its))) kvs of
                  Inl e \<Rightarrow> Inl e
                | Inr comps \<Rightarrow>
                    (case starts g of
                       None \<Rightarrow> Inl AttributeError
                     | Some s \<Rightarrow>
                         to_json (PDict [(PStr ''weighted'', weighted g),
                                         (PStr ''starts'', s),
                                         (PStr ''components'', PDict (dict_of_items comps))])))))"

text \<open>
  The inner comprehension of \<^verbatim>\<open>load\<close>,
  \<^verbatim>\<open>{tuple(value): count for value, count in values}\<close>, over the elements of \<^verbatim>\<open>values\<close>.
\<close>

fun counts_of_entries :: "(pv \<times> pv) list \<Rightarrow> pv list \<Rightarrow> py_error + (pv \<times> pv) list" where
  "counts_of_entries d [] = Inr d"
| "counts_of_entries d (x # xs) =
     (case unpack2 x of
        Inl e \<Rightarrow> Inl e
      | Inr (value, count) \<Rightarrow>
          (case py_tuple value of
             Inl e \<Rightarrow> Inl e
           | Inr t \<Rightarrow>
               (if hashable t then counts_of_entries (dict_set d t count) xs
                else Inl TypeError)))"

text \<open>The value that \<^verbatim>\<open>load\<close> computes for \<^verbatim>\<open>self.components\<close> from the parsed document.\<close>

definition load_components :: "pv \<Rightarrow> py_error + pv" where
  "load_components serialised =
     (case py_getitem serialised (PStr ''components'') of
        Inl e \<Rightarrow> Inl e
      | Inr cs \<Rightarrow>
          (case py_items cs of
             Inl e \<Rightarrow> Inl e
           | Inr kvs \<Rightarrow>
               (case map_result (\<lambda>(key, values).
                       case py_iter values of
                         Inl e \<Rightarrow> Inl e
                       | Inr xs \<Rightarrow>
                           (case counts_of_entries [] xs of
                              Inl e \<Rightarrow> Inl e
                            | Inr d \<Rightarrow> Inr (key, PDict d))) kvs of
                  Inl e \<Rightarrow> Inl e
                | Inr comps \<Rightarrow> Inr (PDict (dict_of_items comps)))))"

text \<open>
  \<^verbatim>\<open>load(file)\<close>: three assignments, one after the other, each of which can raise.  The
  file is \<open>None\<close> when its text is not JSON, which \<^verbatim>\<open>json.load\<close> refuses.
\<close>

definition load :: "generator \<Rightarrow> json option \<Rightarrow> py_error option \<times> generator" where
  "load g file =
     (case file of
        None \<Rightarrow> (Some JSONDecodeError, g)
      | Some doc \<Rightarrow>
          (case load_components (of_json doc) of
             Inl e \<Rightarrow> (Some e, g)
           | Inr c \<Rightarrow>
               (case py_getitem (of_json doc) (PStr ''starts'') of
                  Inl e \<Rightarrow> (Some e, g\<lparr>components := Some c\<rparr>)
                | Inr s \<Rightarrow>
                    (case py_getitem (of_json doc) (PStr ''weighted'') of
                       Inl e \<Rightarrow> (Some e, g\<lparr>components := Some c, starts := Some s\<rparr>)
                     | Inr w \<Rightarrow>
                         (None, g\<lparr>components := Some c, starts := Some s, weighted := w\<rparr>)))))"

subsection \<open>Notions of the specification\<close>

text \<open>The cumulative running sum of the counts of the first \<open>i\<close> candidates, in stored
  order.\<close>

definition running_sum :: "('a \<times> int) list \<Rightarrow> nat \<Rightarrow> int" where
  "running_sum cs i = sum_list (map snd (take i cs))"

text \<open>A weighted candidate collection as the object the code holds: a dictionary from
  the candidates to their counts.\<close>

definition counted :: "(pv \<times> int) list \<Rightarrow> pv" where
  "counted cs = PDict (map (\<lambda>(k, n). (k, PInt n)) cs)"


subsection \<open>Fixtures\<close>

text \<open>A weighted and an unweighted generator seeded with the one word \<^verbatim>\<open>cat\<close>, and the
  store after that.\<close>

definition cat_generator :: "pv \<Rightarrow> generator" where
  "cat_generator w =
     snd (snd (init (\<lambda>_. None) class_heap Absent (Words [''cat'']) w ENGLISH_VOWELS))"

definition cat_heap :: heap where
  "cat_heap = fst (snd (init (\<lambda>_. None) class_heap Absent (Words [''cat'']) (PBool True) ENGLISH_VOWELS))"

subsection \<open>Auxiliary notions for the proofs about generation\<close>



text \<open>
  The tables that \<^verbatim>\<open>seed\<close> builds, with their types: for every key the value pairs
  with their counts, and the start keys with their counts, both in order of first
  occurrence.  \<open>count_pairs\<close> is the counting that the loop of \<^verbatim>\<open>seed\<close> does on new
  tables.
\<close>

type_synonym table = "(string \<times> ((string \<times> string) \<times> int) list) list"

fun bump :: "('a \<times> int) list \<Rightarrow> 'a \<Rightarrow> ('a \<times> int) list" where
  "bump [] k = [(k, 1)]"
| "bump ((k', n) # xs) k = (if k' = k then (k', n + 1) # xs else (k', n) # bump xs k)"

fun bump_table :: "table \<Rightarrow> string \<Rightarrow> string \<times> string \<Rightarrow> table" where
  "bump_table [] k v = [(k, [(v, 1)])]"
| "bump_table ((k', c) # T) k v =
     (if k' = k then (k', bump c v) # T else (k', c) # bump_table T k v)"

fun count_pairs :: "table \<times> (string \<times> int) list \<Rightarrow> (string \<times> string \<times> string) list \<Rightarrow>
    table \<times> (string \<times> int) list" where
  "count_pairs (T, S) [] = (T, S)"
| "count_pairs (T, S) ((k, v) # ps) =
     count_pairs (bump_table T k v, if startswith k MARKER then bump S k else S) ps"

text \<open>The objects that hold such tables: while they are built, and after \<^verbatim>\<open>seed\<close> has
  frozen them in a weighted (\<open>True\<close>) or unweighted generator.\<close>

definition pair_value :: "string \<times> string \<Rightarrow> pv" where
  "pair_value v = PTuple [PStr (fst v), PStr (snd v)]"

definition counter_items :: "((string \<times> string) \<times> int) list \<Rightarrow> (pv \<times> pv) list" where
  "counter_items c = map (\<lambda>(v, n). (pair_value v, PInt n)) c"

definition starts_items :: "(string \<times> int) list \<Rightarrow> (pv \<times> pv) list" where
  "starts_items S = map (\<lambda>(k, n). (PStr k, PInt n)) S"

definition building_components :: "table \<Rightarrow> pv" where
  "building_components T = PDefaultDict (map (\<lambda>(k, c). (PStr k, PCounter (counter_items c))) T)"

definition frozen_counter :: "bool \<Rightarrow> ((string \<times> string) \<times> int) list \<Rightarrow> pv" where
  "frozen_counter w c =
     (if w then PDict (counter_items c) else PList (map (\<lambda>(v, n). pair_value v) c))"

definition frozen_components :: "bool \<Rightarrow> table \<Rightarrow> pv" where
  "frozen_components w T = PDict (map (\<lambda>(k, c). (PStr k, frozen_counter w c)) T)"

definition frozen_starts :: "bool \<Rightarrow> (string \<times> int) list \<Rightarrow> pv" where
  "frozen_starts w S =
     (if w then PDict (starts_items S) else PList (map (\<lambda>(k, n). PStr k) S))"

text \<open>The (key, value pair) entries of a table, and what the proofs about generation
  need of the tables: positive counts, no empty collection, and a closed chain.\<close>

definition table_entries :: "table \<Rightarrow> (string \<times> string \<times> string) set" where
  "table_entries T = {(k, v). \<exists>c. (k, c) \<in> set T \<and> v \<in> fst ` set c}"


text \<open>What counting keeps true of the tables: distinct keys and positive counts.\<close>

definition counted_ok :: "table \<Rightarrow> (string \<times> int) list \<Rightarrow> bool" where
  "counted_ok T S = (distinct (map fst T) \<and> distinct (map fst S) \<and>
      (\<forall>(k, c)\<in>set T. c \<noteq> [] \<and> distinct (map fst c) \<and> (\<forall>(v, n)\<in>set c. 0 < n)) \<and>
      (\<forall>(k, n)\<in>set S. 0 < n))"


text \<open>The lines or words that a call of \<^verbatim>\<open>seed\<close> reads: those of the file when the
  dictionary is the name of a readable file, the dictionary's own items when it is not
  a file name, and otherwise the items of the language.\<close>

definition corpus_read :: "files \<Rightarrow> source \<Rightarrow> source \<Rightarrow> string list" where
  "corpus_read fs dictionary language =
     (if given dictionary \<and> \<not> given language
      then (case open_file fs dictionary of Inr flines \<Rightarrow> flines | Inl e \<Rightarrow> items dictionary)
      else items language)"

text \<open>The document that \<^verbatim>\<open>save\<close> writes for typed tables, in its parts, and the
  entries as \<^verbatim>\<open>json.load\<close> returns them.\<close>

definition json_entries :: "((string \<times> string) \<times> int) list \<Rightarrow> json list" where
  "json_entries c = map (\<lambda>((m, t), n). JArr [JArr [JStr m, JStr t], JInt n]) c"

definition json_components :: "table \<Rightarrow> (string \<times> json) list" where
  "json_components T = map (\<lambda>(k, c). (k, JArr (json_entries c))) T"

definition json_starts :: "(string \<times> int) list \<Rightarrow> (string \<times> json) list" where
  "json_starts S = map (\<lambda>(k, n). (k, JInt n)) S"

definition loaded_entries :: "((string \<times> string) \<times> int) list \<Rightarrow> pv list" where
  "loaded_entries c = map (\<lambda>((m, t), n). PList [PList [PStr m, PStr t], PInt n]) c"
section \<open>Properties of the segmentation\<close>

lemma filter_all_prefixes:
  "filter (list_all P) (rev (prefixes xs)) = plus_candidates P xs @ [[]]"
  by (cases xs) (simp_all add: plus_candidates_def filter_map comp_def rev_map)

lemma plus_candidates_Nil: "plus_candidates P [] = []"
  by (simp add: plus_candidates_def)

lemma plus_candidates_Cons:
  "plus_candidates P (x # xs) =
     (if P x then map ((#) x) (plus_candidates P xs) @ [[x]] else [])"
proof -
  have "plus_candidates P (x # xs) =
        map ((#) x) (filter (\<lambda>p. P x \<and> list_all P p) (rev (prefixes xs)))"
    by (simp add: plus_candidates_def filter_map comp_def rev_map)
  then show ?thesis
    by (simp add: filter_all_prefixes)
qed

lemma plus_candidates_empty:
  "plus_candidates P s = [] \<longleftrightarrow> s = [] \<or> \<not> P (hd s)"
  by (cases s) (simp_all add: plus_candidates_Nil plus_candidates_Cons)

lemma plus_candidates_greedy:
  "s \<noteq> [] \<Longrightarrow> P (hd s) \<Longrightarrow>
   \<exists>ks. plus_candidates P s = takeWhile P s # ks \<and>
        (\<forall>p\<in>set ks. plus_candidates (\<lambda>c. \<not> P c) (drop (length p) s) = [])"
proof (induction s)
  case Nil
  then show ?case by simp
next
  case (Cons x xs)
  then have px: "P x" by simp
  show ?case
  proof (cases "xs = [] \<or> \<not> P (hd xs)")
    case True
    then have "plus_candidates P xs = []"
      by (simp add: plus_candidates_empty)
    moreover from True have "takeWhile P xs = []"
      by (cases xs) auto
    moreover from True have "plus_candidates (\<lambda>c. \<not> P c) xs = [] \<or> True" by simp
    ultimately show ?thesis
      using px by (simp add: plus_candidates_Cons)
  next
    case False
    with Cons.IH obtain ks where ks: "plus_candidates P xs = takeWhile P xs # ks"
      and rest: "\<forall>p\<in>set ks. plus_candidates (\<lambda>c. \<not> P c) (drop (length p) xs) = []"
      by auto
    from False have "plus_candidates (\<lambda>c. \<not> P c) xs = []"
      by (simp add: plus_candidates_empty)
    with ks rest px show ?thesis
      by (auto simp: plus_candidates_Cons)
  qed
qed


lemma regex_match_greedy:
  "regex_match vs s =
     (let k = takeWhile (\<lambda>c. c \<in> vs) s; r = dropWhile (\<lambda>c. c \<in> vs) s;
          m = takeWhile (\<lambda>c. c \<notin> vs) r; r' = dropWhile (\<lambda>c. c \<notin> vs) r
      in if k \<noteq> [] \<and> m \<noteq> [] \<and> r' \<noteq> []
         then Some (k, m, takeWhile (\<lambda>c. c \<in> vs) r') else None)"
proof -
  define k where "k = takeWhile (\<lambda>c. c \<in> vs) s"
  define r where "r = dropWhile (\<lambda>c. c \<in> vs) s"
  define m where "m = takeWhile (\<lambda>c. c \<notin> vs) r"
  define r' where "r' = dropWhile (\<lambda>c. c \<notin> vs) r"
  define G where "G = (\<lambda>(g1::string) (g2::string). map (\<lambda>g3. (g1, g2, g3))
      (plus_candidates (\<lambda>c. c \<in> vs) (drop (length g2) (drop (length g1) s))))"
  define F where "F = (\<lambda>g1. concat (map (G g1)
      (plus_candidates (\<lambda>c. c \<notin> vs) (drop (length g1) s))))"
  have rm: "regex_match vs s =
      (case concat (map F (plus_candidates (\<lambda>c. c \<in> vs) s)) of [] \<Rightarrow> None | x # _ \<Rightarrow> Some x)"
    by (simp add: regex_match_def F_def G_def add.commute)
  have dk: "drop (length k) s = r"
    unfolding k_def r_def by (simp add: dropWhile_eq_drop)
  have dd: "\<And>q. drop (length q + length k) s = drop (length q) r"
    unfolding dk [symmetric] by simp
  have dm: "drop (length m) r = r'"
    unfolding m_def r'_def by (simp add: dropWhile_eq_drop)
  have hr: "r \<noteq> [] \<Longrightarrow> hd r \<notin> vs"
    unfolding r_def using hd_dropWhile [of "\<lambda>c. c \<in> vs" s] by simp
  have hr': "r' \<noteq> [] \<Longrightarrow> hd r' \<in> vs"
    unfolding r'_def using hd_dropWhile [of "\<lambda>c. c \<notin> vs" r] by simp
  have goal: "regex_match vs s =
      (if k \<noteq> [] \<and> m \<noteq> [] \<and> r' \<noteq> [] then Some (k, m, takeWhile (\<lambda>c. c \<in> vs) r') else None)"
  proof (cases "s = [] \<or> hd s \<notin> vs")
    case True
    then have "plus_candidates (\<lambda>c. c \<in> vs) s = []"
      by (simp add: plus_candidates_empty)
    moreover from True have "k = []"
      unfolding k_def by (cases s) auto
    ultimately show ?thesis
      by (simp add: rm)
  next
    case False
    then obtain ks where ks: "plus_candidates (\<lambda>c. c \<in> vs) s = k # ks"
      and ks_fail: "\<forall>p\<in>set ks. plus_candidates (\<lambda>c. c \<notin> vs) (drop (length p) s) = []"
      using plus_candidates_greedy [of s "\<lambda>c. c \<in> vs"] unfolding k_def by auto
    have kne: "k \<noteq> []"
      using False unfolding k_def by (cases s) auto
    have "\<forall>p\<in>set ks. F p = []"
      using ks_fail by (simp add: F_def)
    then have c1: "concat (map F (k # ks)) = F k"
      by simp
    have rm1: "regex_match vs s = (case F k of [] \<Rightarrow> None | x # _ \<Rightarrow> Some x)"
      unfolding rm ks c1 by (rule refl)
    show ?thesis
    proof (cases "r = []")
      case True
      then have "F k = []" and "m = []"
        by (simp_all add: F_def dk plus_candidates_Nil m_def)
      then show ?thesis
        by (simp add: rm1)
    next
      case rne: False
      with hr obtain ms where ms: "plus_candidates (\<lambda>c. c \<notin> vs) r = m # ms"
        and ms_fail: "\<forall>q\<in>set ms. plus_candidates (\<lambda>c. c \<in> vs) (drop (length q) r) = []"
        using plus_candidates_greedy [of r "\<lambda>c. c \<notin> vs"] unfolding m_def by auto
      have mne: "m \<noteq> []"
        using rne hr unfolding m_def by (cases r) auto
      have "\<forall>q\<in>set ms. G k q = []"
        using ms_fail by (simp add: G_def dd)
      then have c2: "concat (map (G k) (m # ms)) = G k m"
        by simp
      have Fk: "F k = G k m"
        unfolding F_def dk ms c2 by (rule refl)
      have Gkm: "G k m = map (\<lambda>g3. (k, m, g3)) (plus_candidates (\<lambda>c. c \<in> vs) r')"
        by (simp add: G_def dd dm)
      show ?thesis
      proof (cases "r' = []")
        case True
        then show ?thesis
          by (simp add: rm1 Fk Gkm plus_candidates_Nil)
      next
        case False
        with hr' obtain ts where "plus_candidates (\<lambda>c. c \<in> vs) r' = takeWhile (\<lambda>c. c \<in> vs) r' # ts"
          using plus_candidates_greedy [of r' "\<lambda>c. c \<in> vs"] by auto
        with False kne mne show ?thesis
          by (simp add: rm1 Fk Gkm)
      qed
    qed
  qed
  then show ?thesis
    unfolding k_def r_def m_def r'_def Let_def by simp
qed


declare findall.simps [simp del]

lemma findall_Nil: "findall vs [] = []"
  by (simp add: findall.simps)

lemma findall_only_vowels:
  "\<forall>c\<in>set s. c \<in> vs \<Longrightarrow> findall vs s = []"
proof (induction s)
  case Nil
  show ?case by (rule findall_Nil)
next
  case (Cons x xs)
  then have "dropWhile (\<lambda>c. c \<in> vs) (x # xs) = []"
    by simp
  then have "regex_match vs (x # xs) = None"
    by (simp add: regex_match_greedy Let_def del: dropWhile.simps dropWhile_eq_Nil_conv)
  with Cons show ?case
    by (simp add: findall.simps [of vs "x # xs"])
qed

lemma regex_match_SomeD:
  assumes "regex_match vs s = Some (k, m, t)"
  shows "\<exists>r'. s = k @ m @ r' \<and> k \<noteq> [] \<and> m \<noteq> [] \<and> r' \<noteq> [] \<and> hd r' \<in> vs \<and>
              set k \<subseteq> vs \<and> set m \<inter> vs = {} \<and> t = takeWhile (\<lambda>c. c \<in> vs) r' \<and> t \<noteq> [] \<and>
              (m @ r' \<noteq> [] \<and> hd (m @ r') \<notin> vs)"
proof -
  define r where "r = dropWhile (\<lambda>c. c \<in> vs) s"
  define r' where "r' = dropWhile (\<lambda>c. c \<notin> vs) r"
  from assms have k: "k = takeWhile (\<lambda>c. c \<in> vs) s" and m: "m = takeWhile (\<lambda>c. c \<notin> vs) r"
    and t: "t = takeWhile (\<lambda>c. c \<in> vs) r'" and ne: "k \<noteq> []" "m \<noteq> []" "r' \<noteq> []"
    unfolding r_def r'_def by (simp_all add: regex_match_greedy Let_def split: if_splits)
  have s: "s = k @ m @ r'"
    unfolding k m r'_def r_def by simp
  have hd': "hd r' \<in> vs"
    using ne(3) hd_dropWhile [of "\<lambda>c. c \<notin> vs" r] unfolding r'_def by simp
  then have tne: "t \<noteq> []"
    using ne(3) unfolding t by (cases r') auto
  have "set k \<subseteq> vs" and "set m \<inter> vs = {}"
    unfolding k m by (auto dest: set_takeWhileD)
  moreover have "hd (m @ r') \<notin> vs"
    using ne(2) \<open>set m \<inter> vs = {}\<close> by (cases m) auto
  ultimately show ?thesis
    using s ne hd' t tne by blast
qed

lemma findall_groups:
  "(k, m, t) \<in> set (findall vs s) \<Longrightarrow>
     k \<noteq> [] \<and> m \<noteq> [] \<and> t \<noteq> [] \<and> set k \<subseteq> vs \<and> set m \<inter> vs = {} \<and> set t \<subseteq> vs"
proof (induction vs s rule: findall.induct)
  case (1 vs s)
  show ?case
  proof (cases "s = []")
    case True
    with "1.prems" show ?thesis by (simp add: findall_Nil)
  next
    case sne: False
    show ?thesis
    proof (cases "regex_match vs s")
      case None
      with sne "1.prems" have "(k, m, t) \<in> set (findall vs (tl s))"
        by (simp add: findall.simps [of vs s])
      with "1.IH"(1) [OF sne None] show ?thesis .
    next
      case (Some g)
      obtain g1 g2 g3 where g: "g = (g1, g2, g3)"
        by (cases g) auto
      from Some g have shape: "g1 \<noteq> [] \<and> g2 \<noteq> [] \<and> g3 \<noteq> [] \<and> set g1 \<subseteq> vs \<and> set g2 \<inter> vs = {} \<and> set g3 \<subseteq> vs"
        using regex_match_SomeD [of vs s g1 g2 g3] by (auto dest: set_takeWhileD)
      from sne Some g "1.prems" have "(k, m, t) = (g1, g2, g3) \<or>
          (k, m, t) \<in> set (findall vs (drop (length g1 + length g2) s))"
        by (simp add: findall.simps [of vs s])
      then show ?thesis
      proof
        assume "(k, m, t) = (g1, g2, g3)"
        with shape show ?thesis by simp
      next
        assume "(k, m, t) \<in> set (findall vs (drop (length g1 + length g2) s))"
        with "1.IH"(2) [OF sne Some g [symmetric] refl] show ?thesis .
      qed
    qed
  qed
qed


lemma findall_first_match:
  assumes "s \<noteq> []" "hd s \<in> vs" "last s \<in> vs" "\<exists>c\<in>set s. c \<notin> vs"
  shows "\<exists>k m r'. s = k @ m @ r' \<and> k = takeWhile (\<lambda>c. c \<in> vs) s \<and> k \<noteq> [] \<and> m \<noteq> [] \<and>
           set m \<inter> vs = {} \<and> r' \<noteq> [] \<and> hd r' \<in> vs \<and> last r' \<in> vs \<and>
           findall vs s = (k, m, takeWhile (\<lambda>c. c \<in> vs) r') # findall vs r'"
proof -
  define k where "k = takeWhile (\<lambda>c. c \<in> vs) s"
  define r where "r = dropWhile (\<lambda>c. c \<in> vs) s"
  define m where "m = takeWhile (\<lambda>c. c \<notin> vs) r"
  define r' where "r' = dropWhile (\<lambda>c. c \<notin> vs) r"
  have s: "s = k @ m @ r'" and kr: "s = k @ r" and mr: "r = m @ r'"
    unfolding k_def m_def r'_def r_def by simp_all
  have kne: "k \<noteq> []"
    using assms(1,2) unfolding k_def by (cases s) auto
  have rne: "r \<noteq> []"
    using assms(4) unfolding r_def by auto
  then have "hd r \<notin> vs"
    unfolding r_def using hd_dropWhile [of "\<lambda>c. c \<in> vs" s] by simp
  with rne have mne: "m \<noteq> []"
    unfolding m_def by (cases r) auto
  have mset: "set m \<inter> vs = {}"
    unfolding m_def by (auto dest: set_takeWhileD)
  have r'ne: "r' \<noteq> []"
  proof
    assume "r' = []"
    with mr mne kr have "last s = last m"
      by simp
    with mne mset assms(3) show False
      by (metis disjoint_iff last_in_set)
  qed
  then have hd': "hd r' \<in> vs"
    unfolding r'_def using hd_dropWhile [of "\<lambda>c. c \<notin> vs" r] by simp
  have last': "last r' \<in> vs"
    using r'ne s assms(3) by simp
  have "regex_match vs s = Some (k, m, takeWhile (\<lambda>c. c \<in> vs) r')"
    using kne mne r'ne unfolding k_def m_def r'_def r_def
    by (simp add: regex_match_greedy Let_def)
  moreover have "drop (length k + length m) s = r'"
    by (subst s) simp
  ultimately have "findall vs s = (k, m, takeWhile (\<lambda>c. c \<in> vs) r') # findall vs r'"
    using assms(1) by (simp add: findall.simps [of vs s])
  with s kne mne mset r'ne hd' last' show ?thesis
    unfolding k_def by blast
qed

lemma findall_reconstruct:
  assumes "s \<noteq> []" "hd s \<in> vs" "last s \<in> vs" "\<exists>c\<in>set s. c \<notin> vs"
  shows "findall vs s \<noteq> [] \<and>
         concat (map (\<lambda>(k, m, t). k @ m) (findall vs s)) @ snd (snd (last (findall vs s))) = s"
  using assms
proof (induction "length s" arbitrary: s rule: less_induct)
  case less
  from findall_first_match [OF less.prems]
  obtain k m r' where s: "s = k @ m @ r'" and kne: "k \<noteq> []" and r': "r' \<noteq> []" "hd r' \<in> vs" "last r' \<in> vs"
    and fa: "findall vs s = (k, m, takeWhile (\<lambda>c. c \<in> vs) r') # findall vs r'"
    by blast
  show ?case
  proof (cases "\<exists>c\<in>set r'. c \<notin> vs")
    case True
    have "length r' < length s"
      using s kne by simp
    from less.hyps [OF this r' True] fa s show ?thesis
      by simp
  next
    case False
    then have "findall vs r' = []" and "takeWhile (\<lambda>c. c \<in> vs) r' = r'"
      by (simp_all add: findall_only_vowels)
    with fa s show ?thesis
      by simp
  qed
qed
section \<open>Properties of the weighted choice\<close>

lemma walk_first_exceeding:
  "real_of_int cur \<le> pick \<Longrightarrow> pick < real_of_int (cur + sum_list (map snd cs)) \<Longrightarrow>
   \<exists>i<length cs. walk (map (\<lambda>(k, n). (k, PInt n)) cs) cur pick = Inr (fst (cs ! i)) \<and>
      pick < real_of_int (cur + running_sum cs (Suc i)) \<and>
      (\<forall>j<i. real_of_int (cur + running_sum cs (Suc j)) \<le> pick)"
proof (induction cs arbitrary: cur)
  case Nil
  then show ?case
    by simp
next
  case (Cons a cs)
  obtain k n where a: "a = (k, n)" by (cases a)
  show ?case
  proof (cases "pick < real_of_int (cur + n)")
    case True
    then have "walk (map (\<lambda>(k, n). (k, PInt n)) (a # cs)) cur pick = Inr (fst ((a # cs) ! 0)) \<and>
      pick < real_of_int (cur + running_sum (a # cs) (Suc 0)) \<and>
      (\<forall>j<0. real_of_int (cur + running_sum (a # cs) (Suc j)) \<le> pick)"
      by (simp add: a running_sum_def)
    then show ?thesis
      by blast
  next
    case False
    from Cons.prems have "pick < real_of_int ((cur + n) + sum_list (map snd cs))"
      by (simp add: a add.assoc)
    moreover from False have "real_of_int (cur + n) \<le> pick"
      by simp
    ultimately obtain i where i: "i < length cs"
      and w: "walk (map (\<lambda>(k, n). (k, PInt n)) cs) (cur + n) pick = Inr (fst (cs ! i))"
      and ex: "pick < real_of_int (cur + n + running_sum cs (Suc i))"
      and below: "\<forall>j<i. real_of_int (cur + n + running_sum cs (Suc j)) \<le> pick"
      using Cons.IH [of "cur + n"] by blast
    have rs: "\<And>j. running_sum (a # cs) (Suc (Suc j)) = n + running_sum cs (Suc j)"
      by (simp add: running_sum_def a)
    have "walk (map (\<lambda>(k, n). (k, PInt n)) (a # cs)) cur pick = Inr (fst ((a # cs) ! Suc i))"
      using False w by (simp add: a)
    moreover have "pick < real_of_int (cur + running_sum (a # cs) (Suc (Suc i)))"
      using ex by (simp add: rs add.assoc)
    moreover have "\<forall>j<Suc i. real_of_int (cur + running_sum (a # cs) (Suc j)) \<le> pick"
    proof (intro allI impI)
      fix j assume "j < Suc i"
      show "real_of_int (cur + running_sum (a # cs) (Suc j)) \<le> pick"
      proof (cases j)
        case 0
        with False show ?thesis by (simp add: running_sum_def a)
      next
        case (Suc j')
        with \<open>j < Suc i\<close> below show ?thesis
          by (simp add: rs add.assoc)
      qed
    qed
    ultimately show ?thesis
      using i by (intro exI [of _ "Suc i"]) simp
  qed
qed

lemma py_sum_counts:
  "py_sum (map (snd \<circ> (\<lambda>(k, n). (k, PInt n))) cs) = Inr (sum_list (map snd cs))"
  by (induction cs) auto







section \<open>Seeding and the shared vowel sets\<close>

lemma seed_begin_heap:
  "fst (seed_begin h g r a) = h(r := insert MARKER (h r))"
  by (simp add: seed_begin_def Let_def)

lemma seed_language_heap:
  "fst (snd (seed_language h g l r a)) = h(r := insert MARKER (h r))"
  by (simp add: seed_language_def seed_begin_def Let_def split: prod.splits)

lemma seed_heap:
  "fst (snd (seed fs h g d l r a)) = h(r := insert MARKER (h r)) \<or>
   fst (snd (seed fs h g d l r a)) =
     (h(r := insert MARKER (h r)))(ENGLISH_VOWELS := insert MARKER ((h(r := insert MARKER (h r))) ENGLISH_VOWELS))"
proof -
  obtain h1 g1 where b: "seed_begin h g r a = (h1, g1)"
    by (cases "seed_begin h g r a")
  then have h1: "h1 = h(r := insert MARKER (h r))"
    using seed_begin_heap [of h g r a] by simp
  have sl: "\<And>h' g' l'. fst (snd (seed_language h' g' l' ENGLISH_VOWELS False)) =
      h'(ENGLISH_VOWELS := insert MARKER (h' ENGLISH_VOWELS))"
    by (rule seed_language_heap)
  have twice: "\<And>h'. (h'(ENGLISH_VOWELS := insert MARKER (h' ENGLISH_VOWELS)))
       (ENGLISH_VOWELS := insert MARKER ((h'(ENGLISH_VOWELS := insert MARKER (h' ENGLISH_VOWELS))) ENGLISH_VOWELS))
      = h'(ENGLISH_VOWELS := insert MARKER (h' ENGLISH_VOWELS))"
    by auto
  show ?thesis
  proof (cases "given d \<and> \<not> given l")
    case True
    show ?thesis
    proof (cases "open_file fs d")
      case (Inl e)
      with True b h1 sl [of h1 g1 d] show ?thesis
        by (cases e) (simp_all add: seed_def)
    next
      case (Inr flines)
      obtain e2 h2 g2 where r2: "seed_language h1 g1 (Lines flines) ENGLISH_VOWELS False = (e2, h2, g2)"
        by (metis prod_cases3)
      then have h2: "h2 = h1(ENGLISH_VOWELS := insert MARKER (h1 ENGLISH_VOWELS))"
        using sl [of h1 g1 "Lines flines"] by simp
      show ?thesis
      proof (cases "e2 = Some TypeError")
        case True
        have "fst (snd (seed_language h2 g2 d ENGLISH_VOWELS False)) = h2"
          unfolding sl unfolding h2 by (rule twice)
        with True \<open>given d \<and> \<not> given l\<close> b Inr r2 h1 h2 show ?thesis
          by (simp add: seed_def)
      next
        case False
        then have "(case (e2, h2, g2) of
             (Some TypeError, h2, g2) \<Rightarrow> seed_language h2 g2 d ENGLISH_VOWELS False
           | r \<Rightarrow> r) = (e2, h2, g2)"
          by (auto split: option.splits py_error.splits)
        with \<open>given d \<and> \<not> given l\<close> b Inr r2 h1 h2 show ?thesis
          by (simp add: seed_def)
      qed
    qed
  next
    case False
    with b h1 show ?thesis
      by (auto simp: seed_def split: prod.splits)
  qed
qed

lemma incr_starts_vowels: "incr_starts g k = (e, g1) \<Longrightarrow> vowels g1 = vowels g"
  by (auto simp: incr_starts_def split: option.splits sum.splits)

lemma incr_components_vowels: "incr_components g k v = (e, g1) \<Longrightarrow> vowels g1 = vowels g"
  by (auto simp: incr_components_def Let_def split: option.splits sum.splits)

lemma seed_pairs_vowels: "seed_pairs g ps = (e, g1) \<Longrightarrow> vowels g1 = vowels g"
proof (induction ps arbitrary: g)
  case Nil
  then show ?case by simp
next
  case (Cons p ps)
  obtain key "value" where p: "p = (key, value)"
    by (cases p)
  obtain e0 g0 where s: "(if startswith key MARKER then incr_starts g key else (None, g)) = (e0, g0)"
    by (cases "if startswith key MARKER then incr_starts g key else (None, g)")
  then have v0: "vowels g0 = vowels g"
    by (auto split: if_splits dest: incr_starts_vowels)
  show ?case
  proof (cases e0)
    case (Some e')
    with Cons.prems p s v0 show ?thesis
      by simp
  next
    case None
    obtain e2 g2 where c: "incr_components g0 key value = (e2, g2)"
      by (cases "incr_components g0 key value")
    then have v2: "vowels g2 = vowels g0"
      by (rule incr_components_vowels)
    show ?thesis
    proof (cases e2)
      case (Some e')
      with Cons.prems p s None c v0 v2 show ?thesis
        by simp
    next
      case n2: None
      with Cons.prems p s None c have "seed_pairs g2 ps = (e, g1)"
        by simp
      from Cons.IH [OF this] v0 v2 show ?thesis
        by simp
    qed
  qed
qed

lemma freeze_vowels: "freeze g = (e, g1) \<Longrightarrow> vowels g1 = vowels g"
  by (auto simp: freeze_def Let_def split: option.splits sum.splits if_splits)

lemma seed_words_vowels: "seed_words g l = (e, g1) \<Longrightarrow> vowels g1 = vowels g"
  by (auto simp: seed_words_def split: option.splits prod.splits)
     (metis seed_pairs_vowels freeze_vowels)+

lemma seed_begin_vowels: "vowels (snd (seed_begin h g r a)) = Some r"
  by (simp add: seed_begin_def Let_def)

lemma seed_language_vowels: "vowels (snd (snd (seed_language h g l r a))) = Some r"
proof -
  obtain h1 g1 where b: "seed_begin h g r a = (h1, g1)"
    by (cases "seed_begin h g r a")
  then have "vowels g1 = Some r"
    using seed_begin_vowels [of h g r a] by simp
  moreover obtain e2 g2 where w: "seed_words g1 l = (e2, g2)"
    by (cases "seed_words g1 l")
  ultimately show ?thesis
    using b seed_words_vowels [OF w] by (simp add: seed_language_def)
qed

lemma seed_vowels:
  "vowels (snd (snd (seed fs h g d l r a))) \<in> {Some r, Some ENGLISH_VOWELS}"
proof -
  obtain h1 g1 where b: "seed_begin h g r a = (h1, g1)"
    by (cases "seed_begin h g r a")
  then have v1: "vowels g1 = Some r"
    using seed_begin_vowels [of h g r a] by simp
  have sl: "\<And>h' g' l'. vowels (snd (snd (seed_language h' g' l' ENGLISH_VOWELS False))) = Some ENGLISH_VOWELS"
    by (rule seed_language_vowels)
  show ?thesis
  proof (cases "given d \<and> \<not> given l")
    case True
    show ?thesis
    proof (cases "open_file fs d")
      case (Inl e)
      with True b v1 sl [of h1 g1 d] show ?thesis
        by (cases e) (simp_all add: seed_def)
    next
      case (Inr flines)
      obtain e2 h2 g2 where r2: "seed_language h1 g1 (Lines flines) ENGLISH_VOWELS False = (e2, h2, g2)"
        by (metis prod_cases3)
      then have v2: "vowels g2 = Some ENGLISH_VOWELS"
        using sl [of h1 g1 "Lines flines"] by simp
      show ?thesis
      proof (cases "e2 = Some TypeError")
        case True
        with \<open>given d \<and> \<not> given l\<close> b Inr r2 sl [of h2 g2 d] show ?thesis
          by (simp add: seed_def)
      next
        case False
        then have "(case (e2, h2, g2) of
             (Some TypeError, h2, g2) \<Rightarrow> seed_language h2 g2 d ENGLISH_VOWELS False
           | r \<Rightarrow> r) = (e2, h2, g2)"
          by (auto split: option.splits py_error.splits)
        with \<open>given d \<and> \<not> given l\<close> b Inr r2 v2 show ?thesis
          by (simp add: seed_def)
      qed
    qed
  next
    case False
    obtain e2 g2 where w: "seed_words g1 l = (e2, g2)"
      by (cases "seed_words g1 l")
    with False b v1 seed_words_vowels [OF w] show ?thesis
      by (auto simp: seed_def)
  qed
qed

section \<open>Dictionaries and documents\<close>

lemma py_eq_refl: "py_eq k k"
  by (simp add: py_eq_def)

lemma py_eq_sym: "py_eq a b \<Longrightarrow> py_eq b a"
  by (simp add: py_eq_def)

lemma py_eq_trans: "py_eq a b \<Longrightarrow> py_eq b c \<Longrightarrow> py_eq a c"
  by (simp add: py_eq_def)

lemma py_eq_PStr: "py_eq (PStr a) (PStr b) \<longleftrightarrow> a = b"
  by (simp add: py_eq_def)








section \<open>The chain of segments of a corpus\<close>










section \<open>The tables that seeding builds\<close>

lemma py_eq_pair_value: "py_eq (pair_value a) (pair_value b) \<longleftrightarrow> a = b"
  by (cases a; cases b) (simp add: py_eq_def pair_value_def)

lemma hashable_pair_value: "hashable (pair_value v)"
  by (simp add: pair_value_def)

lemma dict_get_starts_items:
  "dict_get (starts_items S) (PStr k) = map_option PInt (map_of S k)"
  by (induction S) (auto simp: starts_items_def py_eq_PStr)

lemma dict_set_starts_items:
  "dict_set (starts_items S) (PStr k) (PInt (case map_of S k of None \<Rightarrow> 1 | Some n \<Rightarrow> n + 1)) =
     starts_items (bump S k)"
  by (induction S) (auto simp: starts_items_def py_eq_PStr)

lemma dict_get_counter_items:
  "dict_get (counter_items c) (pair_value v) = map_option PInt (map_of c v)"
  by (induction c) (auto simp: counter_items_def py_eq_pair_value)

lemma dict_set_counter_items:
  "dict_set (counter_items c) (pair_value v) (PInt (case map_of c v of None \<Rightarrow> 1 | Some n \<Rightarrow> n + 1)) =
     counter_items (bump c v)"
  by (induction c) (auto simp: counter_items_def py_eq_pair_value)

lemma incr_starts_building:
  assumes "starts g = Some (PCounter (starts_items S))"
  shows "incr_starts g k = (None, g\<lparr>starts := Some (PCounter (starts_items (bump S k)))\<rparr>)"
proof -
  have "dict_set (starts_items S) (PStr k) (PInt (case map_of S k of None \<Rightarrow> 1 | Some n \<Rightarrow> n + 1)) =
     starts_items (bump S k)"
    by (rule dict_set_starts_items)
  then show ?thesis
    using assms
    by (cases "map_of S k")
       (simp_all add: incr_starts_def dict_get_starts_items py_add1_def)
qed


lemma counter_items_Nil: "counter_items [] = []"
  by (simp add: counter_items_def)

lemma dict_set_twice: "dict_set (dict_set d k a) k b = dict_set d k b"
  by (induction d) (auto simp: py_eq_refl)

lemma dict_get_building:
  "dict_get (map (\<lambda>(k, c). (PStr k, PCounter (counter_items c))) T) (PStr k) =
     map_option (\<lambda>c. PCounter (counter_items c)) (map_of T k)"
  by (induction T) (auto simp: py_eq_PStr)

lemma dict_set_building:
  "dict_set (map (\<lambda>(k, c). (PStr k, PCounter (counter_items c))) T) (PStr k)
       (PCounter (counter_items (bump (case map_of T k of None \<Rightarrow> [] | Some c \<Rightarrow> c) v))) =
     map (\<lambda>(k, c). (PStr k, PCounter (counter_items c))) (bump_table T k v)"
  by (induction T) (auto simp: py_eq_PStr)

lemma incr_components_building:
  assumes "components g = Some (building_components T)"
  shows "incr_components g k v =
           (None, g\<lparr>components := Some (building_components (bump_table T k v))\<rparr>)"
proof -
  let ?items = "map (\<lambda>(k, c). (PStr k, PCounter (counter_items c))) T"
  let ?c = "case map_of T k of None \<Rightarrow> [] | Some c \<Rightarrow> c"
  let ?tup = "PTuple [PStr (fst v), PStr (snd v)]"
  have tup: "?tup = pair_value v"
    by (simp add: pair_value_def)
  have get: "py_getitem (PDefaultDict ?items) (PStr k) = Inr (PCounter (counter_items ?c))"
    by (cases "map_of T k") (simp_all add: dict_get_building counter_items_Nil)
  have after: "\<exists>d. after_getitem (PDefaultDict ?items) (PStr k) = PDefaultDict d \<and>
      dict_set d (PStr k) (PCounter (counter_items (bump ?c v))) =
        map (\<lambda>(k, c). (PStr k, PCounter (counter_items c))) (bump_table T k v)"
    using dict_set_building [of T k v]
    by (cases "map_of T k") (simp_all add: dict_get_building dict_set_twice counter_items_Nil)
  then obtain d where d: "after_getitem (PDefaultDict ?items) (PStr k) = PDefaultDict d"
    "dict_set d (PStr k) (PCounter (counter_items (bump ?c v))) =
        map (\<lambda>(k, c). (PStr k, PCounter (counter_items c))) (bump_table T k v)"
    by blast
  have inner_get: "py_getitem (PCounter (counter_items ?c)) ?tup =
      Inr (PInt (case map_of ?c v of None \<Rightarrow> 0 | Some n \<Rightarrow> n))"
    unfolding tup
    by (cases "map_of ?c v") (simp_all add: dict_get_counter_items hashable_pair_value)
  have add: "py_add1 (PInt (case map_of ?c v of None \<Rightarrow> 0 | Some n \<Rightarrow> n)) =
      Inr (PInt (case map_of ?c v of None \<Rightarrow> 1 | Some n \<Rightarrow> n + 1))"
    by (cases "map_of ?c v") (simp_all add: py_add1_def)
  have inner_set: "py_setitem (PCounter (counter_items ?c)) ?tup
        (PInt (case map_of ?c v of None \<Rightarrow> 1 | Some n \<Rightarrow> n + 1)) =
      Inr (PCounter (counter_items (bump ?c v)))"
    unfolding tup by (simp add: hashable_pair_value dict_set_counter_items)
  have outer_set: "py_setitem (PDefaultDict d) (PStr k) (PCounter (counter_items (bump ?c v))) =
      Inr (PDefaultDict (map (\<lambda>(k, c). (PStr k, PCounter (counter_items c))) (bump_table T k v)))"
    using d(2) by simp
  show ?thesis
    using assms
    unfolding incr_components_def building_components_def
    by (simp add: get d(1) inner_get add inner_set outer_set Let_def
          del: py_getitem.simps after_getitem.simps py_setitem.simps)
qed

lemma seed_pairs_building:
  assumes "components g = Some (building_components T)"
    and "starts g = Some (PCounter (starts_items S))"
  shows "seed_pairs g ps =
           (None, g\<lparr>components := Some (building_components (fst (count_pairs (T, S) ps))),
                     starts := Some (PCounter (starts_items (snd (count_pairs (T, S) ps))))\<rparr>)"
  using assms
proof (induction ps arbitrary: g T S)
  case Nil
  then show ?case
    by simp
next
  case (Cons p ps)
  obtain k v where p: "p = (k, v)"
    by (cases p)
  let ?S = "if startswith k MARKER then bump S k else S"
  let ?g1 = "g\<lparr>starts := Some (PCounter (starts_items ?S))\<rparr>"
  have s1: "(if startswith k MARKER then incr_starts g k else (None, g)) = (None, ?g1)"
    using Cons.prems(2) incr_starts_building [OF Cons.prems(2), of k] by simp
  have c1: "components ?g1 = Some (building_components T)"
    using Cons.prems(1) by simp
  let ?g2 = "?g1\<lparr>components := Some (building_components (bump_table T k v))\<rparr>"
  have s2: "incr_components ?g1 k v = (None, ?g2)"
    by (rule incr_components_building [OF c1])
  have "seed_pairs ?g2 ps =
      (None, ?g2\<lparr>components := Some (building_components (fst (count_pairs (bump_table T k v, ?S) ps))),
                  starts := Some (PCounter (starts_items (snd (count_pairs (bump_table T k v, ?S) ps))))\<rparr>)"
    by (rule Cons.IH) simp_all
  with s1 s2 show ?case
    unfolding p by simp
qed

lemma keys_bump: "fst ` set (bump c v) = insert v (fst ` set c)"
proof (induction c)
  case Nil
  show ?case by simp
next
  case (Cons a c)
  obtain k n where a: "a = (k, n)" by (cases a)
  show ?case
    using Cons.IH unfolding a by (cases "k = v") (simp_all add: insert_commute)
qed

lemma bump_positive: "\<forall>(v, n)\<in>set c. 0 < n \<Longrightarrow> \<forall>(v, n)\<in>set (bump c v'). 0 < n"
  by (induction c) (auto split: if_splits)

lemma bump_nonempty: "bump c v \<noteq> []"
  by (cases c) (auto split: if_splits)

lemma distinct_bump: "distinct (map fst c) \<Longrightarrow> distinct (map fst (bump c v))"
  by (induction c) (auto simp: keys_bump)

lemma keys_bump_table: "fst ` set (bump_table T k v) = insert k (fst ` set T)"
proof (induction T)
  case Nil
  show ?case by simp
next
  case (Cons a T)
  obtain k' c where a: "a = (k', c)" by (cases a)
  show ?case
    using Cons.IH unfolding a by (cases "k' = k") (simp_all add: insert_commute)
qed

lemma distinct_bump_table: "distinct (map fst T) \<Longrightarrow> distinct (map fst (bump_table T k v))"
  by (induction T) (auto simp: keys_bump_table)

lemma entries_bump_table: "table_entries (bump_table T k v) = insert (k, v) (table_entries T)"
proof (induction T)
  case Nil
  show ?case by (auto simp: table_entries_def)
next
  case (Cons a T)
  obtain k' c where a: "a = (k', c)" by (cases a)
  have split: "\<And>k0 c0 T0. table_entries ((k0, c0) # T0) = (\<lambda>v. (k0, v)) ` fst ` set c0 \<union> table_entries T0"
    by (auto simp: table_entries_def)
  show ?case
    using Cons.IH unfolding a by (auto simp: split keys_bump)
qed

lemma counters_bump_table:
  assumes "\<forall>(k, c)\<in>set T. c \<noteq> [] \<and> distinct (map fst c) \<and> (\<forall>(v, n)\<in>set c. 0 < n)"
  shows "\<forall>(k, c)\<in>set (bump_table T k' v). c \<noteq> [] \<and> distinct (map fst c) \<and> (\<forall>(v, n)\<in>set c. 0 < n)"
  using assms
proof (induction T)
  case Nil
  show ?case by simp
next
  case (Cons a T)
  obtain k0 c where a: "a = (k0, c)" by (cases a)
  from Cons.prems a have c: "c \<noteq> []" "distinct (map fst c)" "\<forall>(v, n)\<in>set c. 0 < n"
    and rest: "\<forall>(k, c)\<in>set T. c \<noteq> [] \<and> distinct (map fst c) \<and> (\<forall>(v, n)\<in>set c. 0 < n)"
    by auto
  show ?case
  proof (cases "k0 = k'")
    case True
    with c rest bump_positive [OF c(3), of v] distinct_bump [OF c(2), of v] bump_nonempty [of c v]
    show ?thesis
      unfolding a by simp
  next
    case False
    with c Cons.IH [OF rest] show ?thesis
      unfolding a by simp
  qed
qed

lemma count_pairs_properties:
  assumes "counted_ok T S"
  shows "counted_ok (fst (count_pairs (T, S) ps)) (snd (count_pairs (T, S) ps)) \<and>
         table_entries (fst (count_pairs (T, S) ps)) = table_entries T \<union> set ps \<and>
         fst ` set (snd (count_pairs (T, S) ps)) =
           fst ` set S \<union> {k \<in> fst ` set ps. startswith k MARKER}"
  using assms
proof (induction ps arbitrary: T S)
  case Nil
  then show ?case by simp
next
  case (Cons p ps)
  obtain k v where p: "p = (k, v)" by (cases p)
  let ?T = "bump_table T k v"
  let ?S = "if startswith k MARKER then bump S k else S"
  from Cons.prems have "counted_ok ?T ?S"
    unfolding counted_ok_def
    using counters_bump_table [of T k v] distinct_bump_table [of T k v]
          distinct_bump [of S k] bump_positive [of S k]
    by auto
  from Cons.IH [OF this] show ?case
    unfolding p by (auto simp: entries_bump_table keys_bump)
qed

lemma counted_ok_empty: "counted_ok [] []"
  by (simp add: counted_ok_def)



lemma dict_set_fresh:
  "\<forall>k'\<in>fst ` set d. \<not> py_eq k' k \<Longrightarrow> dict_set d k v = d @ [(k, v)]"
  by (induction d) auto

lemma foldl_dict_set_distinct:
  assumes "distinct (map fst T)"
    and "\<forall>k\<in>fst ` set T. \<forall>k'\<in>fst ` set d0. \<not> py_eq k' (PStr k)"
  shows "foldl (\<lambda>d (k, v). dict_set d k v) d0 (map (\<lambda>(k, c). (PStr k, F c)) T) =
           d0 @ map (\<lambda>(k, c). (PStr k, F c)) T"
  using assms
proof (induction T arbitrary: d0)
  case Nil
  show ?case by simp
next
  case (Cons a T)
  obtain k c where a: "a = (k, c)" by (cases a)
  from Cons.prems(2) have "dict_set d0 (PStr k) (F c) = d0 @ [(PStr k, F c)]"
    unfolding a by (intro dict_set_fresh) auto
  moreover have "foldl (\<lambda>d (k, v). dict_set d k v) (d0 @ [(PStr k, F c)]) (map (\<lambda>(k, c). (PStr k, F c)) T) =
      (d0 @ [(PStr k, F c)]) @ map (\<lambda>(k, c). (PStr k, F c)) T"
  proof (rule Cons.IH)
    show "distinct (map fst T)"
      using Cons.prems(1) by simp
    show "\<forall>k2\<in>fst ` set T. \<forall>k'\<in>fst ` set (d0 @ [(PStr k, F c)]). \<not> py_eq k' (PStr k2)"
      using Cons.prems unfolding a by (auto simp: py_eq_PStr)
  qed
  ultimately show ?case
    unfolding a by simp
qed

lemma dict_of_items_distinct:
  assumes "distinct (map fst T)"
  shows "dict_of_items (map (\<lambda>(k, c). (PStr k, F c)) T) = map (\<lambda>(k, c). (PStr k, F c)) T"
  using foldl_dict_set_distinct [OF assms, of "[]" F] by (simp add: dict_of_items_def)

lemma map_result_total:
  assumes "\<And>x. x \<in> set xs \<Longrightarrow> f x = Inr (h x)"
  shows "map_result f xs = Inr (map h xs)"
  using assms by (induction xs) simp_all

lemma freeze_building:
  assumes c: "components g = Some (building_components T)"
    and s: "starts g = Some (PCounter (starts_items S))"
    and d: "distinct (map fst T)"
  shows "freeze g =
           (None, g\<lparr>components := Some (frozen_components (truthy (weighted g)) T),
                     starts := Some (frozen_starts (truthy (weighted g)) S)\<rparr>)"
proof (cases "truthy (weighted g)")
  case True
  let ?items = "map (\<lambda>(k, c). (PStr k, PCounter (counter_items c))) T"
  have "map_result (\<lambda>(key, value). case py_dict value of Inl e \<Rightarrow> Inl e | Inr d \<Rightarrow> Inr (key, d)) ?items =
      Inr (map (\<lambda>(key, value). (key, PDict (case value of PCounter d \<Rightarrow> d | _ \<Rightarrow> []))) ?items)"
    by (rule map_result_total) auto
  also have "map (\<lambda>(key, value). (key, PDict (case value of PCounter d \<Rightarrow> d | _ \<Rightarrow> []))) ?items =
      map (\<lambda>(k, c). (PStr k, frozen_counter True c)) T"
    by (simp add: frozen_counter_def case_prod_unfold)
  finally have mr: "map_result (\<lambda>(key, value). case py_dict value of Inl e \<Rightarrow> Inl e | Inr d \<Rightarrow> Inr (key, d)) ?items =
      Inr (map (\<lambda>(k, c). (PStr k, frozen_counter True c)) T)" .
  show ?thesis
    using True c s
    by (simp add: freeze_def building_components_def mr dict_of_items_distinct [OF d]
          frozen_components_def frozen_starts_def)
next
  case False
  let ?items = "map (\<lambda>(k, c). (PStr k, PCounter (counter_items c))) T"
  have "map_result (\<lambda>(key, value). case py_keys value of Inl e \<Rightarrow> Inl e | Inr ks \<Rightarrow> Inr (key, PList ks)) ?items =
      Inr (map (\<lambda>(key, value). (key, PList (case value of PCounter d \<Rightarrow> map fst d | _ \<Rightarrow> []))) ?items)"
    by (rule map_result_total) (auto simp: py_keys_def)
  also have "map (\<lambda>(key, value). (key, PList (case value of PCounter d \<Rightarrow> map fst d | _ \<Rightarrow> []))) ?items =
      map (\<lambda>(k, c). (PStr k, frozen_counter False c)) T"
    by (simp add: frozen_counter_def counter_items_def case_prod_unfold comp_def)
  finally have mr: "map_result (\<lambda>(key, value). case py_keys value of Inl e \<Rightarrow> Inl e | Inr ks \<Rightarrow> Inr (key, PList ks)) ?items =
      Inr (map (\<lambda>(k, c). (PStr k, frozen_counter False c)) T)" .
  have sk: "py_keys (PCounter (starts_items S)) = Inr (map (\<lambda>(k, n). PStr k) S)"
    by (simp add: py_keys_def starts_items_def case_prod_unfold comp_def)
  show ?thesis
    using False c s
    by (simp add: freeze_def building_components_def mr sk dict_of_items_distinct [OF d]
          frozen_components_def frozen_starts_def)
qed

lemma seed_words_new_tables:
  assumes "regex g = Some rx"
    and "components g = Some (PDefaultDict [])" and "starts g = Some (PCounter [])"
  shows "seed_words g language =
     (None, g\<lparr>components := Some (frozen_components (truthy (weighted g))
                    (fst (count_pairs ([], []) (concat (map (split_word rx) (words_of language)))))),
               starts := Some (frozen_starts (truthy (weighted g))
                    (snd (count_pairs ([], []) (concat (map (split_word rx) (words_of language))))))\<rparr>)"
proof -
  let ?ps = "concat (map (split_word rx) (words_of language))"
  let ?T = "fst (count_pairs ([], []) ?ps)"
  let ?S = "snd (count_pairs ([], []) ?ps)"
  let ?g1 = "g\<lparr>components := Some (building_components ?T), starts := Some (PCounter (starts_items ?S))\<rparr>"
  have "components g = Some (building_components [])" "starts g = Some (PCounter (starts_items []))"
    using assms by (simp_all add: building_components_def starts_items_def)
  then have sp: "seed_pairs g ?ps = (None, ?g1)"
    by (rule seed_pairs_building)
  have "distinct (map fst ?T)"
    using count_pairs_properties [OF counted_ok_empty, of ?ps] by (simp add: counted_ok_def)
  then have "freeze ?g1 =
      (None, ?g1\<lparr>components := Some (frozen_components (truthy (weighted ?g1)) ?T),
                 starts := Some (frozen_starts (truthy (weighted ?g1)) ?S)\<rparr>)"
    by (intro freeze_building) simp_all
  with sp assms(1) show ?thesis
    by (simp add: seed_words_def)
qed

section \<open>Generation from seeded tables\<close>










lemma seed_without_dictionary:
  "seed fs h g Absent language r a = seed_language h g language r a"
  by (simp add: seed_def seed_language_def split: prod.splits)

lemma seed_language_new_tables:
  assumes "given language"
  shows "\<exists>h1 g1. seed_language h g language r False = (None, h1, g1) \<and>
     components g1 = Some (frozen_components (truthy (weighted g1))
        (fst (count_pairs ([], []) (concat (map (split_word (insert MARKER (h r))) (words_of language)))))) \<and>
     starts g1 = Some (frozen_starts (truthy (weighted g1))
        (snd (count_pairs ([], []) (concat (map (split_word (insert MARKER (h r))) (words_of language))))))"
proof -
  let ?rx = "insert MARKER (h r)"
  let ?g0 = "g\<lparr>vowels := Some r, regex := Some ?rx,
               components := Some (PDefaultDict []), starts := Some (PCounter [])\<rparr>"
  let ?h1 = "h(r := ?rx)"
  have b: "seed_begin h g r False = (?h1, ?g0)"
    by (simp add: seed_begin_def Let_def)
  let ?ps = "concat (map (split_word ?rx) (words_of language))"
  let ?T = "fst (count_pairs ([], []) ?ps)"
  let ?S = "snd (count_pairs ([], []) ?ps)"
  let ?g1 = "?g0\<lparr>components := Some (frozen_components (truthy (weighted ?g0)) ?T),
                 starts := Some (frozen_starts (truthy (weighted ?g0)) ?S)\<rparr>"
  have sw: "seed_words ?g0 language = (None, ?g1)"
    by (rule seed_words_new_tables) simp_all
  have "seed_language h g language r False = (None, ?h1, ?g1)"
    using b assms sw by (simp add: seed_language_def)
  then show ?thesis
    by simp
qed

lemma seed_new_tables:
  assumes ok: "fst (seed fs h g dictionary language r a) = None"
    and fresh: "\<not> a \<or> given dictionary"
  shows "\<exists>rx L. MARKER \<in> rx \<and> set (items L) \<subseteq> set (corpus_read fs dictionary language) \<and>
     components (snd (snd (seed fs h g dictionary language r a))) =
       Some (frozen_components (truthy (weighted (snd (snd (seed fs h g dictionary language r a)))))
          (fst (count_pairs ([], []) (concat (map (split_word rx) (words_of L)))))) \<and>
     starts (snd (snd (seed fs h g dictionary language r a))) =
       Some (frozen_starts (truthy (weighted (snd (snd (seed fs h g dictionary language r a)))))
          (snd (count_pairs ([], []) (concat (map (split_word rx) (words_of L))))))"
proof -
  obtain h1 g1 where b: "seed_begin h g r a = (h1, g1)"
    by (cases "seed_begin h g r a")
  show ?thesis
  proof (cases "given dictionary \<and> \<not> given language")
    case True
    show ?thesis
    proof (cases "open_file fs dictionary")
      case (Inl e)
      show ?thesis
      proof (cases "e = TypeError")
        case False
        with ok b True Inl show ?thesis
          by (cases e) (simp_all add: seed_def)
      next
        case te: True
        from True seed_language_new_tables [of dictionary h1 g1 ENGLISH_VOWELS]
        obtain h2 g2 where r2: "seed_language h1 g1 dictionary ENGLISH_VOWELS False = (None, h2, g2)"
          and t: "components g2 = Some (frozen_components (truthy (weighted g2))
            (fst (count_pairs ([], []) (concat (map (split_word (insert MARKER (h1 ENGLISH_VOWELS))) (words_of dictionary))))))"
            "starts g2 = Some (frozen_starts (truthy (weighted g2))
            (snd (count_pairs ([], []) (concat (map (split_word (insert MARKER (h1 ENGLISH_VOWELS))) (words_of dictionary))))))"
          by blast
        have res: "snd (snd (seed fs h g dictionary language r a)) = g2"
          using b True Inl te r2 by (simp add: seed_def)
        have cr: "corpus_read fs dictionary language = items dictionary"
          using True Inl by (simp add: corpus_read_def)
        show ?thesis
          unfolding res cr using t
          by (intro exI [of _ "insert MARKER (h1 ENGLISH_VOWELS)"] exI [of _ dictionary]) simp
      qed
    next
      case (Inr flines)
      from seed_language_new_tables [of "Lines flines" h1 g1 ENGLISH_VOWELS]
      obtain h2 g2 where r2: "seed_language h1 g1 (Lines flines) ENGLISH_VOWELS False = (None, h2, g2)"
        and t: "components g2 = Some (frozen_components (truthy (weighted g2))
          (fst (count_pairs ([], []) (concat (map (split_word (insert MARKER (h1 ENGLISH_VOWELS))) (words_of (Lines flines)))))))"
          "starts g2 = Some (frozen_starts (truthy (weighted g2))
          (snd (count_pairs ([], []) (concat (map (split_word (insert MARKER (h1 ENGLISH_VOWELS))) (words_of (Lines flines)))))))"
        by auto
      have res: "snd (snd (seed fs h g dictionary language r a)) = g2"
        using b True Inr r2 by (simp add: seed_def)
      have cr: "corpus_read fs dictionary language = flines"
        using True Inr by (simp add: corpus_read_def)
      show ?thesis
        unfolding res cr using t
        by (intro exI [of _ "insert MARKER (h1 ENGLISH_VOWELS)"] exI [of _ "Lines flines"]) simp
    qed
  next
    case False
    with ok b have giv: "given language" "\<not> given dictionary"
      by (auto simp: seed_def split: if_splits)
    with fresh have na: "\<not> a"
      by simp
    from giv seed_language_new_tables [of language h g r]
    obtain h2 g2 where r2: "seed_language h g language r False = (None, h2, g2)"
      and t: "components g2 = Some (frozen_components (truthy (weighted g2))
        (fst (count_pairs ([], []) (concat (map (split_word (insert MARKER (h r))) (words_of language))))))"
        "starts g2 = Some (frozen_starts (truthy (weighted g2))
        (snd (count_pairs ([], []) (concat (map (split_word (insert MARKER (h r))) (words_of language))))))"
      by blast
    have "seed fs h g dictionary language r a = seed_language h g language r False"
      using giv na b by (simp add: seed_def seed_language_def)
    with r2 have res: "snd (snd (seed fs h g dictionary language r a)) = g2"
      by simp
    have cr: "corpus_read fs dictionary language = items language"
      using giv by (simp add: corpus_read_def)
    show ?thesis
      unfolding res cr using t
      by (intro exI [of _ "insert MARKER (h r)"] exI [of _ language]) simp
  qed
qed






section \<open>Saving and loading seeded tables\<close>

lemma to_json_starts: "to_json_items (starts_items S) = Inr (json_starts S)"
  by (induction S) (auto simp: starts_items_def json_starts_def)

lemma to_json_entries:
  "to_json_list (map (\<lambda>(k, v). PTuple [k, v]) (counter_items c)) = Inr (json_entries c)"
  by (induction c) (auto simp: counter_items_def json_entries_def pair_value_def)

lemma to_json_components:
  "to_json_items (map (\<lambda>(k, c). (PStr k, PList (map (\<lambda>(k, v). PTuple [k, v]) (counter_items c)))) T) =
     Inr (json_components T)"
  by (induction T) (auto simp: json_components_def to_json_entries)

lemma save_weighted:
  assumes c: "components g = Some (frozen_components True T)"
    and s: "starts g = Some (frozen_starts True S)"
    and d: "distinct (map fst T)"
    and w: "to_json (weighted g) = Inr jw"
  shows "save g = Inr (JObj [(''weighted'', jw), (''starts'', JObj (json_starts S)),
                             (''components'', JObj (json_components T))])"
proof -
  let ?items = "map (\<lambda>(k, c). (PStr k, PDict (counter_items c))) T"
  have mr: "map_result (\<lambda>(key, values).
                 case py_items values of
                   Inl e \<Rightarrow> Inl e
                 | Inr its \<Rightarrow> Inr (key, PList (map (\<lambda>(k, v). PTuple [k, v]) its))) ?items =
      Inr (map (\<lambda>(key, values). (key, PList (map (\<lambda>(k, v). PTuple [k, v])
               (case values of PDict d \<Rightarrow> d | _ \<Rightarrow> [])))) ?items)"
    by (rule map_result_total) auto
  have eq: "map (\<lambda>(key, values). (key, PList (map (\<lambda>(k, v). PTuple [k, v])
               (case values of PDict d \<Rightarrow> d | _ \<Rightarrow> [])))) ?items =
      map (\<lambda>(k, c). (PStr k, PList (map (\<lambda>(k, v). PTuple [k, v]) (counter_items c)))) T"
    by (simp add: case_prod_unfold)
  note mr' = mr [unfolded eq]
  show ?thesis
    using c s w
    by (simp add: save_def frozen_components_def frozen_counter_def frozen_starts_def
          mr' dict_of_items_distinct [OF d] to_json_starts to_json_components)
qed


lemma of_json_items_distinct:
  "distinct (map fst (kjs0 @ kjs)) \<Longrightarrow>
   of_json_items (map (\<lambda>(k, j). (PStr k, of_json j)) kjs0) kjs =
     map (\<lambda>(k, j). (PStr k, of_json j)) (kjs0 @ kjs)"
proof (induction kjs arbitrary: kjs0)
  case Nil
  show ?case by simp
next
  case (Cons a kjs)
  obtain k j where a: "a = (k, j)" by (cases a)
  from Cons.prems have fresh: "\<forall>k'\<in>fst ` set (map (\<lambda>(k, j). (PStr k, of_json j)) kjs0). \<not> py_eq k' (PStr k)"
    unfolding a by (force simp: py_eq_PStr)
  have "dict_set (map (\<lambda>(k, j). (PStr k, of_json j)) kjs0) (PStr k) (of_json j) =
      map (\<lambda>(k, j). (PStr k, of_json j)) (kjs0 @ [(k, j)])"
    using dict_set_fresh [OF fresh] by simp
  moreover have "distinct (map fst ((kjs0 @ [(k, j)]) @ kjs))"
    using Cons.prems unfolding a by simp
  ultimately show ?case
    unfolding a using Cons.IH [of "kjs0 @ [(k, j)]"] by simp
qed

lemma of_json_starts:
  assumes "distinct (map fst S)"
  shows "of_json_items [] (json_starts S) = starts_items S"
proof -
  have "distinct (map fst ([] @ json_starts S))"
    using assms by (simp add: json_starts_def case_prod_unfold comp_def)
  from of_json_items_distinct [OF this] show ?thesis
    by (simp add: json_starts_def starts_items_def case_prod_unfold comp_def)
qed

lemma of_json_entries: "of_json_list (json_entries c) = loaded_entries c"
  by (induction c) (auto simp: json_entries_def loaded_entries_def)

lemma of_json_components:
  assumes "distinct (map fst T)"
  shows "of_json_items [] (json_components T) =
           map (\<lambda>(k, c). (PStr k, PList (loaded_entries c))) T"
proof -
  have "distinct (map fst ([] @ json_components T))"
    using assms by (simp add: json_components_def case_prod_unfold comp_def)
  from of_json_items_distinct [OF this] show ?thesis
    by (simp add: json_components_def case_prod_unfold comp_def of_json_entries)
qed

lemma counts_of_loaded_entries:
  "distinct (map fst (c0 @ c)) \<Longrightarrow>
   counts_of_entries (counter_items c0) (loaded_entries c) = Inr (counter_items (c0 @ c))"
proof (induction c arbitrary: c0)
  case Nil
  show ?case by (simp add: loaded_entries_def)
next
  case (Cons a c)
  obtain m t n where a: "a = ((m, t), n)" by (cases a) auto
  from Cons.prems have fresh: "\<forall>k'\<in>fst ` set (counter_items c0). \<not> py_eq k' (pair_value (m, t))"
    unfolding a by (force simp: counter_items_def py_eq_pair_value)
  have set: "dict_set (counter_items c0) (pair_value (m, t)) (PInt n) = counter_items (c0 @ [((m, t), n)])"
    using dict_set_fresh [OF fresh] by (simp add: counter_items_def)
  have "distinct (map fst ((c0 @ [((m, t), n)]) @ c))"
    using Cons.prems unfolding a by simp
  from Cons.IH [OF this] have "counts_of_entries (counter_items (c0 @ [((m, t), n)])) (loaded_entries c) =
      Inr (counter_items (c0 @ a # c))"
    unfolding a by simp
  moreover have "counts_of_entries (counter_items c0) (loaded_entries (a # c)) =
      counts_of_entries (dict_set (counter_items c0) (pair_value (m, t)) (PInt n)) (loaded_entries c)"
    unfolding a by (simp add: loaded_entries_def unpack2_def py_tuple_def pair_value_def)
  ultimately show ?case
    unfolding set by simp
qed

lemma map_result_map:
  assumes "\<And>x. x \<in> set xs \<Longrightarrow> f (g x) = Inr (h x)"
  shows "map_result f (map g xs) = Inr (map h xs)"
  using assms by (induction xs) simp_all

lemma load_weighted:
  assumes ok: "counted_ok T S"
  shows "load g0 (Some (JObj [(''weighted'', jw), (''starts'', JObj (json_starts S)),
                              (''components'', JObj (json_components T))])) =
           (None, g0\<lparr>components := Some (frozen_components True T),
                      starts := Some (frozen_starts True S), weighted := of_json jw\<rparr>)"
proof -
  let ?doc = "JObj [(''weighted'', jw), (''starts'', JObj (json_starts S)),
                    (''components'', JObj (json_components T))]"
  from ok have dT: "distinct (map fst T)" and dS: "distinct (map fst S)"
    and dc: "\<forall>(k, c)\<in>set T. distinct (map fst c)"
    unfolding counted_ok_def by auto
  have doc: "of_json ?doc =
      PDict [(PStr ''weighted'', of_json jw), (PStr ''starts'', PDict (starts_items S)),
             (PStr ''components'', PDict (map (\<lambda>(k, c). (PStr k, PList (loaded_entries c))) T))]"
    by (simp add: of_json_starts [OF dS] of_json_components [OF dT] py_eq_def)
  have mr: "map_result (\<lambda>(key, values).
                 case py_iter values of
                   Inl e \<Rightarrow> Inl e
                 | Inr xs \<Rightarrow>
                     (case counts_of_entries [] xs of
                        Inl e \<Rightarrow> Inl e
                      | Inr d \<Rightarrow> Inr (key, PDict d)))
              (map (\<lambda>(k, c). (PStr k, PList (loaded_entries c))) T) =
      Inr (map (\<lambda>(k, c). (PStr k, frozen_counter True c)) T)"
  proof (rule map_result_map)
    fix x assume "x \<in> set T"
    obtain k c where x: "x = (k, c)" by (cases x)
    with \<open>x \<in> set T\<close> dc have "distinct (map fst ([] @ c))"
      by auto
    from counts_of_loaded_entries [OF this]
    have "counts_of_entries [] (loaded_entries c) = Inr (counter_items c)"
      by (simp add: counter_items_def)
    then show "(case (case x of (k, c) \<Rightarrow> (PStr k, PList (loaded_entries c))) of
           (key, values) \<Rightarrow>
             case py_iter values of
               Inl e \<Rightarrow> Inl e
             | Inr xs \<Rightarrow>
                 (case counts_of_entries [] xs of
                    Inl e \<Rightarrow> Inl e
                  | Inr d \<Rightarrow> Inr (key, PDict d))) =
        Inr (case x of (k, c) \<Rightarrow> (PStr k, frozen_counter True c))"
      unfolding x by (simp add: frozen_counter_def)
  qed
  have lc: "load_components (of_json ?doc) = Inr (frozen_components True T)"
    unfolding doc
    by (simp add: load_components_def py_eq_def mr dict_of_items_distinct [OF dT]
          frozen_components_def)
  have gs: "py_getitem (of_json ?doc) (PStr ''starts'') = Inr (frozen_starts True S)"
    unfolding doc by (simp add: py_eq_def frozen_starts_def)
  have gw: "py_getitem (of_json ?doc) (PStr ''weighted'') = Inr (of_json jw)"
    unfolding doc by (simp add: py_eq_def)
  show ?thesis
    by (simp add: load_def lc gs gw del: of_json.simps)
qed


lemma save_load_weighted:
  assumes ok: "fst (seed fs h g dictionary language r a) = None"
    and fresh: "\<not> a \<or> given dictionary"
    and w: "truthy (weighted (snd (snd (seed fs h g dictionary language r a))))"
    and jw: "to_json (weighted (snd (snd (seed fs h g dictionary language r a)))) = Inr jw"
  shows "\<exists>doc. save (snd (snd (seed fs h g dictionary language r a))) = Inr doc \<and>
           load g0 (Some doc) =
             (None, g0\<lparr>components := components (snd (snd (seed fs h g dictionary language r a))),
                        starts := starts (snd (snd (seed fs h g dictionary language r a))),
                        weighted := of_json jw\<rparr>)"
proof -
  let ?G = "snd (snd (seed fs h g dictionary language r a))"
  from seed_new_tables [OF ok fresh] obtain rx L where
    c: "components ?G = Some (frozen_components (truthy (weighted ?G))
          (fst (count_pairs ([], []) (concat (map (split_word rx) (words_of L))))))"
    and s: "starts ?G = Some (frozen_starts (truthy (weighted ?G))
          (snd (count_pairs ([], []) (concat (map (split_word rx) (words_of L))))))"
    by blast
  let ?T = "fst (count_pairs ([], []) (concat (map (split_word rx) (words_of L))))"
  let ?S = "snd (count_pairs ([], []) (concat (map (split_word rx) (words_of L))))"
  have cok: "counted_ok ?T ?S"
    using count_pairs_properties [OF counted_ok_empty] by blast
  then have d: "distinct (map fst ?T)"
    by (simp add: counted_ok_def)
  from c s w have c': "components ?G = Some (frozen_components True ?T)"
    and s': "starts ?G = Some (frozen_starts True ?S)"
    by simp_all
  have "save ?G = Inr (JObj [(''weighted'', jw), (''starts'', JObj (json_starts ?S)),
                             (''components'', JObj (json_components ?T))])"
    using c' s' d jw by (rule save_weighted)
  moreover have "load g0 (Some (JObj [(''weighted'', jw), (''starts'', JObj (json_starts ?S)),
                              (''components'', JObj (json_components ?T))])) =
           (None, g0\<lparr>components := components ?G, starts := starts ?G, weighted := of_json jw\<rparr>)"
    unfolding c' s' using cok by (rule load_weighted)
  ultimately show ?thesis
    by blast
qed

lemma save_unweighted:
  assumes ok: "fst (seed fs h g dictionary language r a) = None"
    and fresh: "\<not> a \<or> given dictionary"
    and w: "\<not> truthy (weighted (snd (snd (seed fs h g dictionary language r a))))"
    and ne: "components (snd (snd (seed fs h g dictionary language r a))) \<noteq> Some (PDict [])"
  shows "save (snd (snd (seed fs h g dictionary language r a))) = Inl AttributeError"
proof -
  let ?G = "snd (snd (seed fs h g dictionary language r a))"
  from seed_new_tables [OF ok fresh] obtain T where
    c: "components ?G = Some (frozen_components (truthy (weighted ?G)) T)"
    by blast
  with ne obtain k c0 T' where T: "T = (k, c0) # T'"
    by (cases T) (auto simp: frozen_components_def)
  from c w show ?thesis
    unfolding T by (simp add: save_def frozen_components_def frozen_counter_def)
qed

section \<open>The claims about segmentation\<close>

text \<open>
  Claim C3, as the code has it.  The middle group of the expression is \<^verbatim>\<open>[^%]+\<close>, so
  every pair that \<^verbatim>\<open>split_word\<close> yields has a non-empty middle made of non-vowels, and
  a word made of vowels only (two vowel runs with nothing between them are one run)
  yields no pair at all.
\<close>

theorem split_word_middle_nonempty:
  assumes "MARKER \<in> rx"
  shows "(set w \<subseteq> rx \<longrightarrow> split_word rx w = []) \<and>
         (\<forall>(k, m, t) \<in> set (split_word rx w). m \<noteq> [] \<and> set m \<inter> rx = {})"
proof
  show "set w \<subseteq> rx \<longrightarrow> split_word rx w = []"
    using assms by (auto simp: split_word_def intro!: findall_only_vowels)
next
  show "\<forall>(k, m, t) \<in> set (split_word rx w). m \<noteq> [] \<and> set m \<inter> rx = {}"
    unfolding split_word_def using findall_groups [of _ _ _ rx "(MARKER # w) @ [MARKER]"]
    by auto
qed

theorem split_word_middle_nonempty_witness:
  "MARKER \<in> insert MARKER english_vowels \<and>
   set ''aa'' \<subseteq> insert MARKER english_vowels \<and>
   split_word (insert MARKER english_vowels) ''aa'' = [] \<and>
   split_word (insert MARKER english_vowels) ''be'' = [(''~'', ''b'', ''e~'')] \<and>
   ''b'' \<noteq> [] \<and> set ''b'' \<inter> insert MARKER english_vowels = {}"
  using split_word_middle_nonempty [of "insert MARKER english_vowels" "''aa''"]
        split_word_middle_nonempty [of "insert MARKER english_vowels" "''be''"]
  by (simp add: english_vowels_def MARKER_def split_word_def findall.simps
        regex_match_def plus_candidates_def)

text \<open>
  Claim C3 as stated fails: the word \<^verbatim>\<open>aa\<close>, padded to \<^verbatim>\<open>~aa~\<close>, yields no pair.
\<close>

theorem split_word_all_vowels_counterexample:
  "split_word (insert MARKER english_vowels) ''aa'' = []"
  by (simp add: english_vowels_def MARKER_def split_word_def findall.simps
        regex_match_def plus_candidates_def)

text \<open>
  Claim C4, as the code has it.  For a word with at least one non-vowel character, the
  keys and middles of the pairs, in order, followed by the trailing vowels of the last
  pair, spell the word between its two markers.  The keys and middles alone spell the
  marker and the word exactly when the word ends with a non-vowel.
\<close>

theorem split_word_reconstruct:
  assumes "MARKER \<in> rx" and "\<exists>c\<in>set w. c \<notin> rx"
  shows "split_word rx w \<noteq> [] \<and>
         concat (map (\<lambda>(k, m, t). k @ m) (split_word rx w)) @ snd (snd (last (split_word rx w)))
           = (MARKER # w) @ [MARKER] \<and>
         (last w \<notin> rx \<longrightarrow>
            concat (map (\<lambda>(k, m, t). k @ m) (split_word rx w)) = MARKER # w)"
proof -
  let ?s = "(MARKER # w) @ [MARKER]"
  let ?segs = "findall rx ?s"
  let ?km = "concat (map (\<lambda>(k, m, t). k @ m) ?segs)"
  let ?t = "snd (snd (last ?segs))"
  have "?s \<noteq> []" "hd ?s \<in> rx" "last ?s \<in> rx" "\<exists>c\<in>set ?s. c \<notin> rx"
    using assms by auto
  from findall_reconstruct [OF this]
  have ne: "?segs \<noteq> []" and rec: "?km @ ?t = ?s"
    by simp_all
  have sw_km: "concat (map (\<lambda>(k, m, t). k @ m) (split_word rx w)) = ?km"
    by (simp add: split_word_def comp_def case_prod_unfold)
  have sw_t: "snd (snd (last (split_word rx w))) = ?t"
    using ne by (simp add: split_word_def last_map case_prod_unfold)
  have sw_ne: "split_word rx w \<noteq> []"
    using ne by (simp add: split_word_def)
  have ends: "?km = MARKER # w" if lw: "last w \<notin> rx"
  proof -
    obtain k m t where last: "last ?segs = (k, m, t)"
      by (cases "last ?segs") auto
    with ne have "(k, m, t) \<in> set ?segs"
      by (metis last_in_set)
    then have t: "t \<noteq> []" "set t \<subseteq> rx"
      using findall_groups [of k m t rx ?s] by simp_all
    from last rec have eq: "?km @ t = (MARKER # w) @ [MARKER]"
      by simp
    from t(1) obtain t' where t': "t = t' @ [last t]"
      by (metis append_butlast_last_id)
    with eq have km: "?km @ t' = MARKER # w"
      by (metis append_assoc append1_eq_conv)
    have "t' = []"
    proof (rule ccontr)
      assume "t' \<noteq> []"
      with km have "last t' = last (MARKER # w)"
        by (metis last_appendR)
      moreover from assms(2) have "w \<noteq> []"
        by auto
      ultimately have "last t' = last w"
        by simp
      moreover from \<open>t' \<noteq> []\<close> t' t(2) have "last t' \<in> rx"
        by (metis Un_iff last_in_set set_append subsetD)
      ultimately show False
        using lw by simp
    qed
    with km show ?thesis
      by simp
  qed
  from sw_ne rec ends show ?thesis
    unfolding sw_km sw_t by blast
qed

theorem split_word_reconstruct_witness:
  "MARKER \<in> insert MARKER english_vowels \<and>
   (\<exists>c\<in>set ''be''. c \<notin> insert MARKER english_vowels) \<and>
   split_word (insert MARKER english_vowels) ''be'' = [(''~'', ''b'', ''e~'')] \<and>
   (''~'' @ ''b'') @ ''e~'' = (MARKER # ''be'') @ [MARKER]"
  using split_word_reconstruct [of "insert MARKER english_vowels" "''be''"]
  by (simp add: english_vowels_def MARKER_def split_word_def findall.simps
        regex_match_def plus_candidates_def)

text \<open>
  Claim C4 as stated fails for a word that ends with a vowel: for \<^verbatim>\<open>be\<close> the keys and
  middles spell \<^verbatim>\<open>~b\<close>, and no removal of markers turns that into \<^verbatim>\<open>be\<close>.
\<close>

theorem split_word_reconstruct_counterexample:
  "concat (map (\<lambda>(k, m, t). k @ m) (split_word (insert MARKER english_vowels) ''be'')) = ''~b'' \<and>
   filter (\<lambda>c. c \<noteq> MARKER) ''~b'' \<noteq> ''be''"
  by (simp add: english_vowels_def MARKER_def split_word_def findall.simps
        regex_match_def plus_candidates_def)

section \<open>The claim about the weighted choice\<close>

text \<open>
  Claim C6.  In a weighted generator, for a collection of candidates with integer counts
  and a draw \<open>d\<close> with \<open>0 \<le> d < total\<close> (the value of \<^verbatim>\<open>random.uniform(0, total)\<close>),
  \<^verbatim>\<open>_weighted_random_choice\<close> returns the candidate at the first position, in stored
  order, whose running sum of counts exceeds \<open>d\<close>: the running sum there is above
  \<open>d\<close> and at every earlier position it is not.
\<close>

theorem weighted_choice_first_exceeding:
  assumes "truthy (weighted g)"
    and "uniform 0 (real_of_int (sum_list (map snd cs))) u = d"
    and "0 \<le> d" and "d < real_of_int (sum_list (map snd cs))"
  shows "\<exists>i<length cs.
           u_weighted_random_choice g (counted cs) (u # ds) = Some (Inr (fst (cs ! i)), ds) \<and>
           d < real_of_int (running_sum cs (Suc i)) \<and>
           (\<forall>j<i. real_of_int (running_sum cs (Suc j)) \<le> d)"
proof -
  from assms(3,4) have "real_of_int 0 \<le> d" "d < real_of_int (0 + sum_list (map snd cs))"
    by simp_all
  from walk_first_exceeding [OF this] obtain i where "i < length cs"
    "walk (map (\<lambda>(k, n). (k, PInt n)) cs) 0 d = Inr (fst (cs ! i))"
    "d < real_of_int (running_sum cs (Suc i))"
    "\<forall>j<i. real_of_int (running_sum cs (Suc j)) \<le> d"
    by auto
  moreover have "u_weighted_random_choice g (counted cs) (u # ds) =
      Some (walk (map (\<lambda>(k, n). (k, PInt n)) cs) 0 d, ds)"
    using assms(1,2)
    by (simp add: u_weighted_random_choice_def counted_def py_values_def py_sum_counts)
  ultimately show ?thesis
    by auto
qed

text \<open>The table of the claim: counts 2, 3, 5 and the draws 1, 4, 9.\<close>

theorem weighted_choice_first_exceeding_witness:
  "truthy (weighted \<lparr>marker = ''~'', weighted = PBool True, vowels = None, regex = None,
                      components = None, starts = None\<rparr>) \<and>
   uniform 0 (real_of_int (sum_list (map snd [(PStr ''c1'', 2), (PStr ''c2'', 3), (PStr ''c3'', 5)]))) (1 / 10) = 1 \<and>
   (0::real) \<le> 1 \<and>
   (1::real) < real_of_int (sum_list (map snd [(PStr ''c1'', 2::int), (PStr ''c2'', 3), (PStr ''c3'', 5)])) \<and>
   u_weighted_random_choice
     \<lparr>marker = ''~'', weighted = PBool True, vowels = None, regex = None,
        components = None, starts = None\<rparr>
     (counted [(PStr ''c1'', 2), (PStr ''c2'', 3), (PStr ''c3'', 5)]) [1 / 10] = Some (Inr (PStr ''c1''), []) \<and>
   u_weighted_random_choice
     \<lparr>marker = ''~'', weighted = PBool True, vowels = None, regex = None,
        components = None, starts = None\<rparr>
     (counted [(PStr ''c1'', 2), (PStr ''c2'', 3), (PStr ''c3'', 5)]) [4 / 10] = Some (Inr (PStr ''c2''), []) \<and>
   u_weighted_random_choice
     \<lparr>marker = ''~'', weighted = PBool True, vowels = None, regex = None,
        components = None, starts = None\<rparr>
     (counted [(PStr ''c1'', 2), (PStr ''c2'', 3), (PStr ''c3'', 5)]) [9 / 10] = Some (Inr (PStr ''c3''), [])"
  using weighted_choice_first_exceeding
          [of "\<lparr>marker = ''~'', weighted = PBool True, vowels = None, regex = None,
                   components = None, starts = None\<rparr>"
              "[(PStr ''c1'', 2), (PStr ''c2'', 3), (PStr ''c3'', 5)]" "1 / 10" 1 "[]"]
  by (simp add: u_weighted_random_choice_def counted_def py_values_def uniform_def)

section \<open>The claims about the generator's state\<close>

text \<open>
  Claim C2, at the input where the code departs from it.  \<^verbatim>\<open>WordGenerator()\<close> without
  a dictionary or language does not call \<^verbatim>\<open>seed\<close>, so the attribute \<^verbatim>\<open>components\<close>
  does not exist, and the test \<^verbatim>\<open>if not self.components\<close> that guards
  \<^verbatim>\<open>EmptyDictionaryError\<close> raises \<^verbatim>\<open>AttributeError\<close> itself.  No random value is taken.
  (\<^verbatim>\<open>generate_word\<close> first unpacks its limit, which can raise on its own.)
\<close>

theorem unseeded_generator_raises_AttributeError:
  "fst (init fs h Absent Absent w v) = None \<and>
   u_generate_word (snd (snd (init fs h Absent Absent w v))) ds =
     Some (Inl AttributeError, snd (snd (init fs h Absent Absent w v)), ds) \<and>
   generate_word (snd (snd (init fs h Absent Absent w v))) limit ds =
     Some (Inl (case limits limit of Inl e \<Rightarrow> e | Inr _ \<Rightarrow> AttributeError),
           snd (snd (init fs h Absent Absent w v)), ds)"
  by (simp add: init_def u_generate_word_def generate_word_def genexpr_next.simps
        split: sum.splits)

text \<open>
  Claim C10.  \<^verbatim>\<open>seed\<close> adds the marker to the very set it is given: afterwards that
  set, in the store, is the old one with the marker.  No set of the store loses an
  element and none gains anything but the marker, so the marker stays in a set for
  good; with the default argument the set is the class attribute \<^verbatim>\<open>ENGLISH_VOWELS\<close>,
  which every generator of the process shares.  The generator keeps the reference it
  was given, or the one to \<^verbatim>\<open>ENGLISH_VOWELS\<close> after the \<^verbatim>\<open>dictionary\<close> branch.
\<close>

theorem seed_adds_marker_in_place:
  "fst (snd (seed fs h g d l r a)) r = insert MARKER (h r) \<and>
   (\<forall>r0. h r0 \<subseteq> fst (snd (seed fs h g d l r a)) r0) \<and>
   (\<forall>r0. fst (snd (seed fs h g d l r a)) r0 \<subseteq> insert MARKER (h r0)) \<and>
   MARKER \<in> fst (snd (seed fs h g d l ENGLISH_VOWELS a)) ENGLISH_VOWELS \<and>
   vowels (snd (snd (seed fs h g d l r a))) \<in> {Some r, Some ENGLISH_VOWELS}"
proof -
  have a: "fst (snd (seed fs h g d l r a)) r = insert MARKER (h r)"
    using seed_heap [of fs h g d l r a] by (auto split: if_splits)
  have b: "\<forall>r0. h r0 \<subseteq> fst (snd (seed fs h g d l r a)) r0"
    using seed_heap [of fs h g d l r a] by (auto split: if_splits)
  have c: "\<forall>r0. fst (snd (seed fs h g d l r a)) r0 \<subseteq> insert MARKER (h r0)"
    using seed_heap [of fs h g d l r a] by (auto split: if_splits)
  have d: "MARKER \<in> fst (snd (seed fs h g d l ENGLISH_VOWELS a)) ENGLISH_VOWELS"
    using seed_heap [of fs h g d l ENGLISH_VOWELS a] by (auto split: if_splits)
  from a b c d seed_vowels [of fs h g d l r a] show ?thesis
    by blast
qed

section \<open>The claims about appending, saving and loading\<close>

text \<open>
  Claim C7, at an input where the code departs from it.  The first \<^verbatim>\<open>seed\<close> leaves
  plain dictionaries (weighted) or lists (unweighted) behind.  Appending the word
  \<^verbatim>\<open>dog\<close> to a weighted generator seeded with \<^verbatim>\<open>cat\<close> then raises \<^verbatim>\<open>KeyError\<close> at
  the first pair that is new, and to an unweighted one \<^verbatim>\<open>TypeError\<close>, since a list
  cannot be indexed by the key.
\<close>

theorem append_new_segment_raises:
  "fst (seed (\<lambda>_. None) cat_heap (cat_generator (PBool True)) Absent (Words [''dog''])
          ENGLISH_VOWELS True) = Some KeyError \<and>
   fst (seed (\<lambda>_. None) cat_heap (cat_generator (PBool False)) Absent (Words [''dog''])
          ENGLISH_VOWELS True) = Some TypeError"
  by code_simp

text \<open>
  Claim C1, at an input where the code departs from it.  In an unweighted generator the
  values of \<^verbatim>\<open>components\<close> are lists, and \<^verbatim>\<open>save\<close> calls \<^verbatim>\<open>items()\<close> on them.
  (Lemma \<open>save_unweighted\<close> has this for every unweighted seeded generator with a
  non-empty table, and lemma \<open>save_load_weighted\<close> has the round trip of both tables
  for every weighted one.)
\<close>

theorem save_unweighted_raises:
  "components (cat_generator (PBool False)) =
     Some (PDict [(PStr ''~'', PList [PTuple [PStr ''c'', PStr ''a'']]),
                  (PStr ''a'', PList [PTuple [PStr ''t'', PStr ''~'']])]) \<and>
   save (cat_generator (PBool False)) = Inl AttributeError"
  by code_simp




section \<open>The claims about generation\<close>





end
